theory Spec2Isabelle
  imports Complex_Main
begin

section \<open>Academic paper token splitter: the extraction, cleanup and chunking pipeline\<close>

text \<open>
  The development embeds the four pipeline functions of \<^verbatim>\<open>app.py\<close>:
  \<^verbatim>\<open>extract_text_from_academic_pdf\<close>, \<^verbatim>\<open>clean_academic_text\<close>, \<^verbatim>\<open>count_tokens\<close>
  and \<^verbatim>\<open>split_text_by_tokens\<close>, and the part of \<^verbatim>\<open>main\<close> that calls them.

  Three libraries are outside the repository and are taken as they are used:
  \<^item> \<^verbatim>\<open>re\<close>: the three patterns of the cleanup are written as pattern values and run by
    a backtracking matcher with the greedy order of Python's engine;
  \<^item> \<^verbatim>\<open>tiktoken\<close>: \<^verbatim>\<open>get_encoding\<close> is a parameter, a function from the encoding name to
    an exception or an encoding with its \<^verbatim>\<open>encode\<close> and \<^verbatim>\<open>decode\<close>;
  \<^item> \<^verbatim>\<open>fitz\<close>: opening a document is a parameter, a function from the bytes to an
    exception or the list of pages, each page giving its text or an exception.

  A text is a \<^typ>\<open>string\<close>: every character is one code point below 256, so the
  character classes below are Python's \<^verbatim>\<open>\s\<close>, \<^verbatim>\<open>\w\<close> and \<^verbatim>\<open>str.isspace\<close> on that range.
\<close>

subsection \<open>Exceptions\<close>

datatype py_exception = ValueError string | PdfError string

fun str :: "py_exception \<Rightarrow> string" where
  "str (ValueError msg) = msg"
| "str (PdfError msg) = msg"

subsection \<open>Character classes\<close>

text \<open>\<^verbatim>\<open>\s\<close> and \<^verbatim>\<open>str.isspace\<close>: code points 9 to 13, 28 to 32, 133 and 160.\<close>

definition is_space :: "char \<Rightarrow> bool" where
  "is_space c =
     (let n = (of_char c :: nat)
      in (9 \<le> n \<and> n \<le> 13) \<or> (28 \<le> n \<and> n \<le> 32) \<or> n = 133 \<or> n = 160)"

text \<open>\<^verbatim>\<open>[a-z]\<close>.\<close>

definition is_lower :: "char \<Rightarrow> bool" where
  "is_lower c = (let n = (of_char c :: nat) in 97 \<le> n \<and> n \<le> 122)"

text \<open>\<^verbatim>\<open>\w\<close>: the underscore and the alphanumeric code points.\<close>

definition is_word :: "char \<Rightarrow> bool" where
  "is_word c =
     (let n = (of_char c :: nat)
      in (48 \<le> n \<and> n \<le> 57) \<or> (65 \<le> n \<and> n \<le> 90) \<or> n = 95 \<or> (97 \<le> n \<and> n \<le> 122)
         \<or> n = 170 \<or> n = 178 \<or> n = 179 \<or> n = 181 \<or> n = 185 \<or> n = 186
         \<or> (188 \<le> n \<and> n \<le> 190) \<or> (192 \<le> n \<and> n \<le> 214)
         \<or> (216 \<le> n \<and> n \<le> 246) \<or> (248 \<le> n \<and> n \<le> 255))"

definition is_newline :: "char \<Rightarrow> bool" where
  "is_newline c = (c = CHR ''\<newline>'')"

definition is_hyphen :: "char \<Rightarrow> bool" where
  "is_hyphen c = (c = CHR ''-'')"

subsection \<open>Regular expressions: matching and \<^verbatim>\<open>re.sub\<close>\<close>

text \<open>
  A pattern is a sequence of atoms, each tagged with the number of the capture group
  it lies in (0 for none): one character of a class, a greedy repetition
  \<^verbatim>\<open>{n,}\<close> of a class (\<^verbatim>\<open>+\<close> is \<^verbatim>\<open>{1,}\<close>, \<^verbatim>\<open>*\<close> is \<^verbatim>\<open>{0,}\<close>), or the assertion \<^verbatim>\<open>\b\<close>.
\<close>

datatype atom = One "char \<Rightarrow> bool" | AtLeast nat "char \<Rightarrow> bool" | WordBoundary

type_synonym pattern = "(nat \<times> atom) list"

text \<open>A match: the text of each group, the last character before the rest, the rest.\<close>

type_synonym match = "(nat \<Rightarrow> string) \<times> char option \<times> string"

text \<open>
  \<^verbatim>\<open>\b\<close> holds between a word character and a character that is none, the two ends
  of the text counting as none. \<open>prev\<close> is the character before the position.
\<close>

definition at_boundary :: "char option \<Rightarrow> string \<Rightarrow> bool" where
  "at_boundary prev s =
     ((case prev of None \<Rightarrow> False | Some c \<Rightarrow> is_word c)
        \<noteq> (case s of [] \<Rightarrow> False | c # _ \<Rightarrow> is_word c))"

definition keep :: "nat \<Rightarrow> char \<Rightarrow> match \<Rightarrow> match" where
  "keep g c m = (case m of (groups, prev, rest) \<Rightarrow> (groups(g := c # groups g), prev, rest))"

text \<open>
  The first match at the start of \<open>s\<close> in backtracking order: a repetition takes a
  character whenever it can, and gives characters back (one at a time, never below
  its minimum) only when the rest of the pattern fails.
\<close>

fun rmatch :: "pattern \<Rightarrow> char option \<Rightarrow> string \<Rightarrow> match option" where
  "rmatch [] prev s = Some (\<lambda>_. [], prev, s)"
| "rmatch ((g, WordBoundary) # p) prev s =
     (if at_boundary prev s then rmatch p prev s else None)"
| "rmatch ((g, One P) # p) prev [] = None"
| "rmatch ((g, One P) # p) prev (c # cs) =
     (if P c then map_option (keep g c) (rmatch p (Some c) cs) else None)"
| "rmatch ((g, AtLeast n P) # p) prev [] = (if n = 0 then rmatch p prev [] else None)"
| "rmatch ((g, AtLeast n P) # p) prev (c # cs) =
     (if P c then
        (case rmatch ((g, AtLeast (n - 1) P) # p) (Some c) cs of
           Some m \<Rightarrow> Some (keep g c m)
         | None \<Rightarrow> if n = 0 then rmatch p prev (c # cs) else None)
      else if n = 0 then rmatch p prev (c # cs) else None)"

text \<open>A replacement template: literal text and group references \<^verbatim>\<open>\1\<close>, \<^verbatim>\<open>\2\<close>.\<close>

datatype piece = Lit string | Ref nat

fun expand :: "piece list \<Rightarrow> (nat \<Rightarrow> string) \<Rightarrow> string" where
  "expand [] groups = []"
| "expand (Lit s # t) groups = s @ expand t groups"
| "expand (Ref g # t) groups = groups g @ expand t groups"

text \<open>
  \<^verbatim>\<open>re.sub(pattern, repl, s)\<close>: scan from the left; at a match emit the expanded
  template and go on after the match, else copy one character. The boundary
  assertion reads the characters of the text being scanned, never the output. An
  empty match emits the template and copies the next character (none of the three
  patterns of the cleanup can match the empty string).
\<close>

function re_sub :: "pattern \<Rightarrow> piece list \<Rightarrow> char option \<Rightarrow> string \<Rightarrow> string" where
  "re_sub p repl prev s =
     (case rmatch p prev s of
        Some (groups, prev', rest) \<Rightarrow>
          if length rest < length s then expand repl groups @ re_sub p repl prev' rest
          else (case s of
                  [] \<Rightarrow> expand repl groups
                | c # cs \<Rightarrow> expand repl groups @ c # re_sub p repl (Some c) cs)
      | None \<Rightarrow>
          (case s of
             [] \<Rightarrow> []
           | c # cs \<Rightarrow> c # re_sub p repl (Some c) cs))"
  by pat_completeness auto
termination
  by (relation "measure (\<lambda>(p, repl, prev, s). length s)") auto

subsection \<open>The text normalizer \<^verbatim>\<open>clean_academic_text\<close>\<close>

text \<open>\<^verbatim>\<open>\n{3,}\<close>\<close>

definition newline_run :: pattern where
  "newline_run = [(0, AtLeast 3 is_newline)]"

text \<open>\<^verbatim>\<open>(\b[a-z]{2,})\s+([a-z]{2,}\b)\<close>\<close>

definition split_word :: pattern where
  "split_word =
     [(1, WordBoundary), (1, AtLeast 2 is_lower), (0, AtLeast 1 is_space),
      (2, AtLeast 2 is_lower), (2, WordBoundary)]"

text \<open>\<^verbatim>\<open>(\w+)-\s*\n\s*(\w+)\<close>\<close>

definition hyphen_break :: pattern where
  "hyphen_break =
     [(1, AtLeast 1 is_word), (0, One is_hyphen), (0, AtLeast 0 is_space),
      (0, One is_newline), (0, AtLeast 0 is_space), (2, AtLeast 1 is_word)]"

text \<open>The three substitutions, in the order of the source.\<close>

definition collapse_newlines :: "string \<Rightarrow> string" where
  "collapse_newlines text = re_sub newline_run [Lit ''\<newline>\<newline>''] None text"

definition merge_split_words :: "string \<Rightarrow> string" where
  "merge_split_words text = re_sub split_word [Ref 1, Ref 2] None text"

definition rejoin_hyphenated :: "string \<Rightarrow> string" where
  "rejoin_hyphenated text = re_sub hyphen_break [Ref 1, Ref 2] None text"

text \<open>\<^verbatim>\<open>text.split('\n')\<close>: the empty text gives one empty line.\<close>

fun split_newline :: "string \<Rightarrow> string list" where
  "split_newline [] = [[]]"
| "split_newline (c # cs) =
     (if c = CHR ''\<newline>'' then [] # split_newline cs
      else (case split_newline cs of
              [] \<Rightarrow> [[c]]
            | line # lines \<Rightarrow> (c # line) # lines))"

text \<open>\<^verbatim>\<open>line.strip()\<close>\<close>

definition strip :: "string \<Rightarrow> string" where
  "strip s = rev (dropWhile is_space (rev (dropWhile is_space s)))"

text \<open>\<^verbatim>\<open>sep.join(lines)\<close>\<close>

fun join :: "string \<Rightarrow> string list \<Rightarrow> string" where
  "join sep [] = []"
| "join sep [x] = x"
| "join sep (x # y # ys) = x @ sep @ join sep (y # ys)"

text \<open>
  \<^verbatim>\<open>[line.strip() for line in text.split('\n') if line.strip()]\<close>, joined with a
  blank line.
\<close>

definition strip_lines :: "string \<Rightarrow> string list" where
  "strip_lines text = map strip (filter (\<lambda>line. strip line \<noteq> []) (split_newline text))"

definition clean_academic_text :: "string \<Rightarrow> string" where
  "clean_academic_text text =
     (let text = collapse_newlines text;
          text = merge_split_words text;
          text = rejoin_hyphenated text;
          lines = strip_lines text;
          cleaned_text = join ''\<newline>\<newline>'' lines
      in cleaned_text)"

subsection \<open>Matches of a whole run\<close>

text \<open>
  Two notions used to describe what a greedy repetition does on a text: keeping a
  whole run of characters in a group, and the character before the position reached
  after a run.
\<close>

definition keeps :: "nat \<Rightarrow> string \<Rightarrow> match \<Rightarrow> match" where
  "keeps g w m = foldr (keep g) w m"

definition prev_after :: "char option \<Rightarrow> string \<Rightarrow> char option" where
  "prev_after prev w = (if w = [] then prev else Some (last w))"

text \<open>A text holds a run of three newlines: three consecutive characters are newlines.\<close>

fun newline_run3 :: "string \<Rightarrow> bool" where
  "newline_run3 (a # b # c # r) =
     ((a = CHR ''\<newline>'' \<and> b = CHR ''\<newline>'' \<and> c = CHR ''\<newline>'') \<or> newline_run3 (b # c # r))"
| "newline_run3 s = False"

subsection \<open>The token counter and the chunker\<close>

record ('x, 't) encoding =
  encode :: "'x \<Rightarrow> py_exception + 't list"
  decode :: "'t list \<Rightarrow> 'x"

definition count_tokens ::
  "(string \<Rightarrow> py_exception + ('x, 't) encoding) \<Rightarrow> 'x \<Rightarrow> string \<Rightarrow> py_exception + nat" where
  "count_tokens get_encoding text encoding_name =
     (case get_encoding encoding_name of
        Inl e \<Rightarrow> Inl e
      | Inr encoding \<Rightarrow>
          (case encode encoding text of
             Inl e \<Rightarrow> Inl e
           | Inr tokens \<Rightarrow> Inr (length tokens)))"

text \<open>The indices of \<^verbatim>\<open>range(i, n, step)\<close> for a positive step.\<close>

function range_from :: "nat \<Rightarrow> nat \<Rightarrow> nat \<Rightarrow> nat list" where
  "range_from i n step = (if i < n \<and> 0 < step then i # range_from (i + step) n step else [])"
  by pat_completeness auto
termination
  by (relation "measure (\<lambda>(i, n, step). n - i)") auto

text \<open>
  \<^verbatim>\<open>range(0, n, step)\<close>: a zero step raises, a negative step gives no index.
\<close>

definition py_range :: "nat \<Rightarrow> int \<Rightarrow> py_exception + nat list" where
  "py_range n step =
     (if step = 0 then Inl (ValueError ''range() arg 3 must not be zero'')
      else if step < 0 then Inr []
      else Inr (range_from 0 n (nat step)))"

text \<open>\<^verbatim>\<open>xs[i:j]\<close> for \<open>0 \<le> i \<le> j\<close>: the slice is cut at the end of the list.\<close>

definition slice :: "'t list \<Rightarrow> nat \<Rightarrow> nat \<Rightarrow> 't list" where
  "slice xs i j = take (j - i) (drop i xs)"

text \<open>The windows \<^verbatim>\<open>chunk_tokens\<close> of the loop, in order.\<close>

definition token_windows :: "'t list \<Rightarrow> int \<Rightarrow> py_exception + 't list list" where
  "token_windows tokens max_tokens =
     (case py_range (length tokens) max_tokens of
        Inl e \<Rightarrow> Inl e
      | Inr starts \<Rightarrow> Inr (map (\<lambda>i. slice tokens i (i + nat max_tokens)) starts))"

definition split_text_by_tokens ::
  "(string \<Rightarrow> py_exception + ('x, 't) encoding) \<Rightarrow> 'x \<Rightarrow> int \<Rightarrow> string
     \<Rightarrow> py_exception + 'x list" where
  "split_text_by_tokens get_encoding text max_tokens encoding_name =
     (case get_encoding encoding_name of
        Inl e \<Rightarrow> Inl e
      | Inr encoding \<Rightarrow>
          (case encode encoding text of
             Inl e \<Rightarrow> Inl e
           | Inr tokens \<Rightarrow>
               (case token_windows tokens max_tokens of
                  Inl e \<Rightarrow> Inl e
                | Inr windows \<Rightarrow> Inr (map (decode encoding) windows))))"

text \<open>
  The token sequences of the chunk texts, each chunk encoded again as \<^verbatim>\<open>main\<close> does
  when it counts the tokens of a chunk, one after the other.
\<close>

fun reencoded_tokens :: "('x, 't) encoding \<Rightarrow> 'x list \<Rightarrow> py_exception + 't list" where
  "reencoded_tokens enc [] = Inr []"
| "reencoded_tokens enc (chunk # chunk_list) =
     (case encode enc chunk of
        Inl e \<Rightarrow> Inl e
      | Inr tokens \<Rightarrow>
          (case reencoded_tokens enc chunk_list of
             Inl e \<Rightarrow> Inl e
           | Inr others \<Rightarrow> Inr (tokens @ others)))"

subsection \<open>The text extractor\<close>

text \<open>A page gives its text or raises; the loop stops at the first page that raises.\<close>

type_synonym page = "py_exception + string"

fun extract_pages :: "page list \<Rightarrow> string \<Rightarrow> py_exception + string" where
  "extract_pages [] full_text = Inr full_text"
| "extract_pages (page # pages) full_text =
     (case page of
        Inl e \<Rightarrow> Inl e
      | Inr text \<Rightarrow>
          (let text = clean_academic_text text
           in if strip text \<noteq> [] then extract_pages pages (full_text @ text @ ''\<newline>\<newline>'')
              else extract_pages pages full_text))"

text \<open>
  The result is the value returned to the caller, or the exception that leaves the
  function, together with the messages passed to \<^verbatim>\<open>st.error\<close>. The handler catches
  every exception of the body, so the function as written always returns.
\<close>

definition extract_text_from_academic_pdf ::
  "('b \<Rightarrow> py_exception + page list) \<Rightarrow> 'b \<Rightarrow> (py_exception + string) \<times> string list" where
  "extract_text_from_academic_pdf fitz_open pdf_bytes =
     (case (case fitz_open pdf_bytes of
              Inl e \<Rightarrow> Inl e
            | Inr pdf_document \<Rightarrow>
                (case extract_pages pdf_document [] of
                   Inl e \<Rightarrow> Inl e
                 | Inr full_text \<Rightarrow> Inr (strip full_text))) of
        Inr text \<Rightarrow> (Inr text, [])
      | Inl e \<Rightarrow> (Inr [], [''Error extracting text from PDF: '' @ str e]))"

subsection \<open>The pipeline of \<^verbatim>\<open>main\<close>\<close>

text \<open>
  The run of one uploaded document, from reading the bytes to the chunk list
  (the rendering of the chunks is left out). The trace lists, in order, the pipeline
  calls that were started and the calls of \<^verbatim>\<open>st.error\<close> and \<^verbatim>\<open>st.stop\<close>.
\<close>

datatype event = ExtractText | CountTokens | SplitText | StError string | StStop

record run =
  events :: "event list"
  chunks :: "string list option"

definition main ::
  "('b \<Rightarrow> py_exception + page list) \<Rightarrow> (string \<Rightarrow> py_exception + (string, 't) encoding)
     \<Rightarrow> 'b \<Rightarrow> int \<Rightarrow> string \<Rightarrow> run" where
  "main fitz_open get_encoding pdf_bytes max_tokens encoding_name =
     (case extract_text_from_academic_pdf fitz_open pdf_bytes of
        (Inl e, errors) \<Rightarrow>
          \<lparr>events = ExtractText # map StError errors
                      @ [StError (''Error processing document: '' @ str e)],
           chunks = None\<rparr>
      | (Inr extracted_text, errors) \<Rightarrow>
          if extracted_text = [] then
            \<lparr>events = ExtractText # map StError errors
                        @ [StError ''No text could be extracted. This might be a scanned/image-based PDF.'',
                           StStop],
             chunks = None\<rparr>
          else
            (case count_tokens get_encoding extracted_text encoding_name of
               Inl e \<Rightarrow>
                 \<lparr>events = ExtractText # map StError errors
                             @ [CountTokens, StError (''Error processing document: '' @ str e)],
                  chunks = None\<rparr>
             | Inr token_count \<Rightarrow>
                 (case split_text_by_tokens get_encoding extracted_text max_tokens encoding_name of
                    Inl e \<Rightarrow>
                      \<lparr>events = ExtractText # map StError errors
                                  @ [CountTokens, SplitText,
                                     StError (''Error processing document: '' @ str e)],
                       chunks = None\<rparr>
                  | Inr chunk_list \<Rightarrow>
                      \<lparr>events = ExtractText # map StError errors @ [CountTokens, SplitText],
                       chunks = Some chunk_list\<rparr>)))"

subsection \<open>Sample libraries\<close>

text \<open>
  Concrete encodings and documents on which the theorems are run. \<open>char_codes\<close>
  has one token per character. \<open>utf8_bytes\<close> works on texts given as lists of code
  points: its tokens are the bytes of UTF-8, and its \<open>decode\<close> puts U+FFFD in the
  place of a byte that does not belong to a well-formed sequence, as a byte-level
  decoder with replacement does.
\<close>

definition char_codes :: "(string, nat) encoding" where
  "char_codes = \<lparr>encode = (\<lambda>text. Inr (map of_char text)), decode = map char_of\<rparr>"

definition utf8_char :: "nat \<Rightarrow> nat list" where
  "utf8_char c =
     (if c < 128 then [c]
      else if c < 2048 then [192 + c div 64, 128 + c mod 64]
      else if c < 65536 then [224 + c div 4096, 128 + c div 64 mod 64, 128 + c mod 64]
      else [240 + c div 262144, 128 + c div 4096 mod 64, 128 + c div 64 mod 64, 128 + c mod 64])"

definition continuation :: "nat \<Rightarrow> nat list \<Rightarrow> bool" where
  "continuation k bs = (k \<le> length bs \<and> list_all (\<lambda>b. 128 \<le> b \<and> b < 192) (take k bs))"

function utf8_decode :: "nat list \<Rightarrow> nat list" where
  "utf8_decode [] = []"
| "utf8_decode (b # bs) =
     (if b < 128 then b # utf8_decode bs
      else if 194 \<le> b \<and> b < 224 \<and> continuation 1 bs then
        ((b - 192) * 64 + (bs ! 0 - 128)) # utf8_decode (drop 1 bs)
      else if 224 \<le> b \<and> b < 240 \<and> continuation 2 bs then
        ((b - 224) * 4096 + (bs ! 0 - 128) * 64 + (bs ! 1 - 128)) # utf8_decode (drop 2 bs)
      else if 240 \<le> b \<and> b < 245 \<and> continuation 3 bs then
        ((b - 240) * 262144 + (bs ! 0 - 128) * 4096 + (bs ! 1 - 128) * 64 + (bs ! 2 - 128))
          # utf8_decode (drop 3 bs)
      else 65533 # utf8_decode bs)"
  by pat_completeness auto
termination
  by (relation "measure length") auto

definition utf8_bytes :: "(nat list, nat) encoding" where
  "utf8_bytes = \<lparr>encode = (\<lambda>text. Inr (concat (map utf8_char text))), decode = utf8_decode\<rparr>"

text \<open>A \<^verbatim>\<open>get_encoding\<close> that knows the three names of the sidebar.\<close>

definition known_encodings :: "('x, 't) encoding \<Rightarrow> string \<Rightarrow> py_exception + ('x, 't) encoding" where
  "known_encodings enc encoding_name =
     (if encoding_name \<in> set [''cl100k_base'', ''p50k_base'', ''r50k_base''] then Inr enc
      else Inl (ValueError (''Unknown encoding '' @ encoding_name)))"

text \<open>
  A \<^verbatim>\<open>fitz.open\<close> on documents given as lists of natural numbers: a document
  opens when it starts with the four bytes of \<^verbatim>\<open>%PDF\<close>; every further byte stands
  for one page, a zero byte for a page whose text cannot be read.
\<close>

definition sample_fitz :: "nat list \<Rightarrow> py_exception + page list" where
  "sample_fitz pdf_bytes =
     (if take 4 pdf_bytes = [37, 80, 68, 70] then
        Inr (map (\<lambda>b. if b = 0 then Inl (PdfError ''cannot read page'') else Inr ''Some  text'')
               (drop 4 pdf_bytes))
      else Inl (PdfError ''Failed to open stream''))"

section \<open>Properties of the chunker\<close>

subsection \<open>The index range and the windows\<close>

declare range_from.simps [simp del]

lemma range_from_nth:
  "k < length (range_from i n m) \<Longrightarrow> range_from i n m ! k = i + k * m"
proof (induction i n m arbitrary: k rule: range_from.induct)
  case (1 i n step)
  show ?case
  proof (cases "i < n \<and> 0 < step")
    case True
    then have eq: "range_from i n step = i # range_from (i + step) n step"
      by (simp add: range_from.simps [of i])
    show ?thesis
    proof (cases k)
      case 0
      then show ?thesis by (simp add: eq)
    next
      case (Suc j)
      with "1.prems" eq have "j < length (range_from (i + step) n step)" by simp
      with "1.IH" True have "range_from (i + step) n step ! j = i + step + j * step" by simp
      with Suc show ?thesis by (simp add: eq)
    qed
  next
    case False
    with "1.prems" show ?thesis by (simp add: range_from.simps [of i])
  qed
qed

lemma range_from_bound: "j \<in> set (range_from i n m) \<Longrightarrow> j < n"
proof (induction i n m rule: range_from.induct)
  case (1 i n step)
  then show ?case
    by (cases "i < n \<and> 0 < step") (auto simp: range_from.simps [of i])
qed

lemma div_add_step: "0 < (m::nat) \<Longrightarrow> (a + m) div m = Suc (a div m)"
  by simp

lemma range_from_length:
  "0 < m \<Longrightarrow> length (range_from i n m) = (n - i + m - 1) div m"
proof (induction i n m rule: range_from.induct)
  case (1 i n step)
  show ?case
  proof (cases "i < n")
    case True
    with "1.prems" have eq: "range_from i n step = i # range_from (i + step) n step"
      by (simp add: range_from.simps [of i])
    from "1.IH" True "1.prems"
    have ih: "length (range_from (i + step) n step) = (n - (i + step) + step - 1) div step"
      by simp
    have "(n - i + step - 1) div step = Suc ((n - (i + step) + step - 1) div step)"
    proof (cases "i + step \<le> n")
      case True
      then have "n - i + step - 1 = (n - (i + step) + step - 1) + step"
        using "1.prems" by simp
      then have "(n - i + step - 1) div step = ((n - (i + step) + step - 1) + step) div step"
        by (rule arg_cong)
      also have "\<dots> = Suc ((n - (i + step) + step - 1) div step)"
        by (rule div_add_step [OF "1.prems"])
      finally show ?thesis .
    next
      case False
      with True "1.prems" have a: "(n - (i + step) + step - 1) div step = 0" by simp
      from False True "1.prems" have b: "n - i + step - 1 = (n - i - 1) + step" and c: "n - i - 1 < step"
        by simp_all
      have "(n - i + step - 1) div step = ((n - i - 1) + step) div step"
        using b by (rule arg_cong)
      also have "\<dots> = Suc ((n - i - 1) div step)"
        by (rule div_add_step [OF "1.prems"])
      also have "\<dots> = Suc 0" using c by simp
      finally show ?thesis using a by simp
    qed
    with eq ih show ?thesis by simp
  next
    case False
    with "1.prems" show ?thesis by (simp add: range_from.simps [of i])
  qed
qed

lemma range_from_concat:
  "0 < m \<Longrightarrow> concat (map (\<lambda>j. slice ts j (j + m)) (range_from i (length ts) m)) = drop i ts"
proof (induction i "length ts" m rule: range_from.induct)
  case (1 i step)
  show ?case
  proof (cases "i < length ts")
    case True
    with "1.prems" have eq: "range_from i (length ts) step = i # range_from (i + step) (length ts) step"
      by (simp add: range_from.simps [of i])
    from "1.hyps" True "1.prems"
    have "concat (map (\<lambda>j. slice ts j (j + step)) (range_from (i + step) (length ts) step)) = drop (i + step) ts"
      by simp
    then show ?thesis
      by (simp add: eq slice_def add.commute [of i step] flip: drop_drop)
  next
    case False
    then show ?thesis by (simp add: range_from.simps [of i])
  qed
qed

lemma ceiling_div_nat:
  assumes "0 < (m::nat)"
  shows "\<lceil>real n / real m\<rceil> = int ((n + m - 1) div m)"
proof (rule ceiling_unique)
  let ?q = "(n + m - 1) div m"
  have le: "?q * m \<le> n + m - 1" by simp
  have lt: "n + m - 1 < (?q + 1) * m"
    using assms by (metis Suc_eq_plus1 dividend_less_div_times mult.commute mult_Suc)
  from le assms have "?q * m < n + m" by linarith
  then have a: "real (?q * m) < real n + real m"
    by (metis of_nat_add of_nat_less_iff)
  from lt assms have "n \<le> ?q * m" by simp
  then have b: "real n \<le> real (?q * m)" using of_nat_le_iff by blast
  from a assms show "of_int (int ?q) - 1 < real n / real m"
    by (simp add: field_simps)
  from b assms show "real n / real m \<le> of_int (int ?q)"
    by (simp add: field_simps)
qed

text \<open>The windows for a positive window size, in closed form.\<close>

lemma token_windows_pos:
  "1 \<le> max_tokens \<Longrightarrow>
     token_windows tokens max_tokens =
       Inr (map (\<lambda>i. slice tokens i (i + nat max_tokens)) (range_from 0 (length tokens) (nat max_tokens)))"
  by (simp add: token_windows_def py_range_def)

lemma windows_concat:
  "1 \<le> max_tokens \<Longrightarrow> token_windows tokens max_tokens = Inr windows \<Longrightarrow> concat windows = tokens"
  using range_from_concat [of "nat max_tokens" tokens 0] by (auto simp: token_windows_pos)

lemma windows_length:
  assumes "1 \<le> max_tokens" "token_windows tokens max_tokens = Inr windows"
  shows "length windows = (length tokens + nat max_tokens - 1) div nat max_tokens"
  using assms range_from_length [of "nat max_tokens" 0 "length tokens"]
  by (auto simp: token_windows_pos)

lemma windows_nth:
  assumes "1 \<le> max_tokens" "token_windows tokens max_tokens = Inr windows" "k < length windows"
  shows "windows ! k = take (nat max_tokens) (drop (k * nat max_tokens) tokens)"
    and "k * nat max_tokens < length tokens"
proof -
  let ?r = "range_from 0 (length tokens) (nat max_tokens)"
  from assms have w: "windows = map (\<lambda>i. slice tokens i (i + nat max_tokens)) ?r"
    by (simp add: token_windows_pos)
  with assms(3) have k: "k < length ?r" by simp
  then have nth: "?r ! k = k * nat max_tokens" by (simp add: range_from_nth)
  from k have "?r ! k \<in> set ?r" by simp
  then have "?r ! k < length tokens" by (rule range_from_bound)
  with nth show "k * nat max_tokens < length tokens" by simp
  from w k nth show "windows ! k = take (nat max_tokens) (drop (k * nat max_tokens) tokens)"
    by (simp add: slice_def)
qed

lemma split_windows:
  assumes "get_encoding encoding_name = Inr enc" "encode enc text = Inr tokens"
    "token_windows tokens max_tokens = Inr windows"
  shows "split_text_by_tokens get_encoding text max_tokens encoding_name = Inr (map (decode enc) windows)"
  using assms by (simp add: split_text_by_tokens_def)

subsection \<open>Size bound\<close>





subsection \<open>Chunk count\<close>

text \<open>
  Claim C4. For a token sequence of length \<open>T\<close> and a window size \<open>M \<ge> 1\<close> the chunker
  returns exactly \<open>\<lceil>T / M\<rceil>\<close> chunks; when the token sequence is empty (as it is for the
  empty text under an encoding that gives the empty text no token) it returns the
  empty list, not a list holding one empty chunk.
\<close>

theorem chunk_count:
  assumes "1 \<le> max_tokens"
    and "get_encoding encoding_name = Inr enc"
    and "encode enc text = Inr tokens"
  shows "\<exists>chunk_list. split_text_by_tokens get_encoding text max_tokens encoding_name = Inr chunk_list
           \<and> int (length chunk_list) = \<lceil>real (length tokens) / real_of_int max_tokens\<rceil>
           \<and> (tokens = [] \<longrightarrow> chunk_list = [])"
proof -
  from assms(1) obtain windows where w: "token_windows tokens max_tokens = Inr windows"
    by (simp add: token_windows_pos)
  from assms(1) have m: "0 < nat max_tokens" "real_of_int max_tokens = real (nat max_tokens)"
    by simp_all
  have len: "int (length windows) = \<lceil>real (length tokens) / real_of_int max_tokens\<rceil>"
    using windows_length [OF assms(1) w] ceiling_div_nat [OF m(1), of "length tokens"]
    by (simp only: m(2))
  have "windows = []" if "tokens = []"
    using windows_concat [OF assms(1) w] windows_length [OF assms(1) w] that m(1) by simp
  moreover have "split_text_by_tokens get_encoding text max_tokens encoding_name = Inr (map (decode enc) windows)"
    using assms(2,3) w by (rule split_windows)
  ultimately show ?thesis using len by simp
qed

theorem chunk_count_witness:
  "(1::int) \<le> 2
     \<and> known_encodings char_codes ''p50k_base'' = Inr char_codes
     \<and> encode char_codes ''abcde'' = Inr [97, 98, 99, 100, 101]
     \<and> (\<exists>chunk_list. split_text_by_tokens (known_encodings char_codes) ''abcde'' 2 ''p50k_base''
             = Inr chunk_list
           \<and> int (length chunk_list) = \<lceil>real (length [97, 98, 99, 100, 101 :: nat]) / real_of_int 2\<rceil>
           \<and> ([97, 98, 99, 100, 101 :: nat] = [] \<longrightarrow> chunk_list = []))"
proof -
  have a: "known_encodings char_codes ''p50k_base'' = Inr char_codes"
    by (simp add: known_encodings_def)
  have b: "encode char_codes ''abcde'' = Inr [97, 98, 99, 100, 101]"
    by (simp add: char_codes_def)
  from chunk_count [of 2 "known_encodings char_codes" "''p50k_base''" char_codes "''abcde''", OF _ a b]
    a b show ?thesis by simp
qed


subsection \<open>Chunk partition\<close>

lemma reencoded_round_trip:
  "(\<forall>w \<in> set windows. encode enc (decode enc w) = Inr w) \<Longrightarrow>
     reencoded_tokens enc (map (decode enc) windows) = Inr (concat windows)"
  by (induction windows) simp_all

text \<open>
  Claim C1 as stated also promises that the chunk texts, encoded again, give back the
  token sequence. That depends on the encoding: a window boundary may fall inside the
  bytes of one character, and then the decoded chunk holds a replacement character.
  With the byte-level sample encoding, the text of the single code point 233 has the
  two tokens 195 and 169; with \<open>max_tokens = 1\<close> both chunks decode to U+FFFD, and the
  chunks encoded again have six tokens.
\<close>

theorem chunk_partition_reencoded_counterexample:
  "encode utf8_bytes [233] = Inr [195, 169]
     \<and> split_text_by_tokens (known_encodings utf8_bytes) [233] 1 ''cl100k_base''
         = Inr [[65533], [65533]]
     \<and> reencoded_tokens utf8_bytes [[65533], [65533]] = Inr [239, 191, 189, 239, 191, 189]
     \<and> reencoded_tokens utf8_bytes [[65533], [65533]] \<noteq> encode utf8_bytes [233]"
  by (simp add: split_text_by_tokens_def known_encodings_def token_windows_def py_range_def
      range_from.simps slice_def utf8_bytes_def utf8_char_def continuation_def)

text \<open>
  Claim C1, amended. For every text and every \<open>max_tokens \<ge> 1\<close> (the encoding known,
  the text encoded to \<open>tokens\<close>), the chunks are the decodings of the token windows;
  the windows are the consecutive slices \<open>tokens[k * max_tokens : (k + 1) * max_tokens]\<close>,
  and their concatenation is the token sequence, no token duplicated or dropped. The
  chunk texts encoded again give the token sequence whenever encoding the decoding of
  each window gives that window back.
\<close>

theorem chunk_partition:
  assumes "1 \<le> max_tokens"
    and "get_encoding encoding_name = Inr enc"
    and "encode enc text = Inr tokens"
  shows "\<exists>windows. token_windows tokens max_tokens = Inr windows
           \<and> split_text_by_tokens get_encoding text max_tokens encoding_name
               = Inr (map (decode enc) windows)
           \<and> concat windows = tokens
           \<and> (\<forall>k < length windows.
                 windows ! k = slice tokens (k * nat max_tokens) (k * nat max_tokens + nat max_tokens))
           \<and> ((\<forall>w \<in> set windows. encode enc (decode enc w) = Inr w) \<longrightarrow>
                 reencoded_tokens enc (map (decode enc) windows) = Inr tokens)"
proof -
  from assms(1) obtain windows where w: "token_windows tokens max_tokens = Inr windows"
    by (simp add: token_windows_pos)
  have s: "split_text_by_tokens get_encoding text max_tokens encoding_name = Inr (map (decode enc) windows)"
    using assms(2,3) w by (rule split_windows)
  have c: "concat windows = tokens"
    using assms(1) w by (rule windows_concat)
  have n: "windows ! k = slice tokens (k * nat max_tokens) (k * nat max_tokens + nat max_tokens)"
    if "k < length windows" for k
    using windows_nth(1) [OF assms(1) w that] by (simp add: slice_def)
  have r: "reencoded_tokens enc (map (decode enc) windows) = Inr tokens"
    if "\<forall>w \<in> set windows. encode enc (decode enc w) = Inr w"
    using reencoded_round_trip [OF that] c by simp
  from w s c n r show ?thesis by blast
qed

theorem chunk_partition_witness:
  "(1::int) \<le> 2
     \<and> known_encodings utf8_bytes ''r50k_base'' = Inr utf8_bytes
     \<and> encode utf8_bytes [233, 97] = Inr [195, 169, 97]
     \<and> token_windows [195, 169, 97 :: nat] 2 = Inr [[195, 169], [97]]
     \<and> encode utf8_bytes (decode utf8_bytes [195, 169]) = Inr [195, 169]
     \<and> encode utf8_bytes (decode utf8_bytes [97]) = Inr [97]
     \<and> split_text_by_tokens (known_encodings utf8_bytes) [233, 97] 2 ''r50k_base''
         = Inr [[233], [97]]
     \<and> reencoded_tokens utf8_bytes [[233], [97]] = Inr [195, 169, 97]"
proof -
  have a: "known_encodings utf8_bytes ''r50k_base'' = Inr utf8_bytes"
    by (simp add: known_encodings_def)
  have b: "encode utf8_bytes [233, 97] = Inr [195, 169, 97]"
    by (simp add: utf8_bytes_def utf8_char_def)
  have w: "token_windows [195, 169, 97 :: nat] 2 = Inr [[195, 169], [97]]"
    by (simp add: token_windows_def py_range_def range_from.simps slice_def)
  have d: "map (decode utf8_bytes) [[195, 169], [97]] = [[233], [97]]"
    by (simp add: utf8_bytes_def continuation_def)
  have rt: "\<forall>w \<in> set [[195, 169], [97 :: nat]]. encode utf8_bytes (decode utf8_bytes w) = Inr w"
    by (simp add: utf8_bytes_def utf8_char_def continuation_def)
  from chunk_partition [of 2 "known_encodings utf8_bytes" "''r50k_base''" utf8_bytes "[233, 97]", OF _ a b]
    w d rt a b
  show ?thesis by auto
qed


section \<open>Properties of the extractor and of the pipeline\<close>

lemma extract_pages_first_failure:
  "\<forall>p \<in> set before. \<not> isl p \<Longrightarrow>
     extract_pages (before @ Inl e # after) full_text = Inl e"
proof (induction before arbitrary: full_text)
  case Nil
  then show ?case by simp
next
  case (Cons page before)
  then show ?case by (cases page) (simp_all add: Let_def)
qed

lemma first_failing_page:
  assumes "\<exists>p \<in> set pages. isl p"
  shows "\<exists>before e after. pages = before @ Inl e # after \<and> (\<forall>p \<in> set before. \<not> isl p)"
proof -
  from assms obtain before p after where
    s: "pages = before @ p # after" "isl p" "\<forall>q \<in> set before. \<not> isl q"
    using split_list_first_prop [of pages isl] by blast
  from s(2) obtain e where "p = Inl e" by (cases p) simp_all
  with s show ?thesis by blast
qed

lemma main_no_text:
  "extract_text_from_academic_pdf fitz_open pdf_bytes = (Inr [], errors) \<Longrightarrow>
     main fitz_open get_encoding pdf_bytes max_tokens encoding_name
       = \<lparr>events = ExtractText # map StError errors
                   @ [StError ''No text could be extracted. This might be a scanned/image-based PDF.'',
                      StStop],
          chunks = None\<rparr>"
  by (simp add: main_def)

lemma extract_returns:
  "\<exists>text errors. extract_text_from_academic_pdf fitz_open pdf_bytes = (Inr text, errors)
     \<and> (text \<noteq> [] \<longrightarrow> errors = [])"
  by (auto simp: extract_text_from_academic_pdf_def split: sum.splits)

subsection \<open>Extraction failures\<close>

text \<open>
  Claim C3 as stated asks that the extractor surface an error to its caller instead of
  returning empty output. The handler of the extractor catches the exception, reports
  it through \<^verbatim>\<open>st.error\<close> and returns the empty string: on bytes that do not open, the
  caller receives the empty text, not an exception.
\<close>

theorem extractor_empty_counterexample:
  "sample_fitz [1, 2, 3] = Inl (PdfError ''Failed to open stream'')
     \<and> extract_text_from_academic_pdf sample_fitz [1, 2, 3]
         = (Inr [], [''Error extracting text from PDF: Failed to open stream''])"
  by (simp add: sample_fitz_def extract_text_from_academic_pdf_def)

text \<open>
  Claim C3, amended. For every document that does not open, or that has a page whose
  text extraction fails, the extractor passes to \<^verbatim>\<open>st.error\<close> the message of the
  exception that was raised (by the opening, or by the first page that fails) and
  returns the empty string, never a partial text; \<^verbatim>\<open>main\<close> then reports that no text
  could be extracted and stops, so no token is counted and no chunk is produced.
  \<open>e\<close> is that exception; by \<open>first_failing_page\<close> every list of pages with a failing
  page has a first one.
\<close>

theorem extractor_failure:
  assumes "fitz_open pdf_bytes = Inl e
             \<or> (\<exists>before after. fitz_open pdf_bytes = Inr (before @ Inl e # after)
                   \<and> (\<forall>p \<in> set before. \<not> isl p))"
  shows "extract_text_from_academic_pdf fitz_open pdf_bytes
             = (Inr [], [''Error extracting text from PDF: '' @ str e])
           \<and> main fitz_open get_encoding pdf_bytes max_tokens encoding_name
             = \<lparr>events =
                  [ExtractText, StError (''Error extracting text from PDF: '' @ str e),
                   StError ''No text could be extracted. This might be a scanned/image-based PDF.'',
                   StStop],
                chunks = None\<rparr>"
proof -
  have x: "extract_text_from_academic_pdf fitz_open pdf_bytes
       = (Inr [], [''Error extracting text from PDF: '' @ str e])"
    using assms
  proof
    assume "fitz_open pdf_bytes = Inl e"
    then show ?thesis by (simp add: extract_text_from_academic_pdf_def)
  next
    assume "\<exists>before after. fitz_open pdf_bytes = Inr (before @ Inl e # after)
                   \<and> (\<forall>p \<in> set before. \<not> isl p)"
    then obtain before after where
      p: "fitz_open pdf_bytes = Inr (before @ Inl e # after)" "\<forall>p \<in> set before. \<not> isl p"
      by blast
    from p(2) have "extract_pages (before @ Inl e # after) [] = Inl e"
      by (rule extract_pages_first_failure)
    with p(1) show ?thesis by (simp add: extract_text_from_academic_pdf_def)
  qed
  from x have "main fitz_open get_encoding pdf_bytes max_tokens encoding_name
      = \<lparr>events = ExtractText # map StError [''Error extracting text from PDF: '' @ str e]
                 @ [StError ''No text could be extracted. This might be a scanned/image-based PDF.'',
                    StStop],
         chunks = None\<rparr>"
    by (rule main_no_text)
  with x show ?thesis by simp
qed

theorem extractor_failure_witness:
  "sample_fitz [37, 80, 68, 70, 1, 0, 1]
       = Inr ([Inr ''Some  text''] @ Inl (PdfError ''cannot read page'') # [Inr ''Some  text''])
     \<and> \<not> isl (Inr ''Some  text'' :: page)
     \<and> extract_text_from_academic_pdf sample_fitz [37, 80, 68, 70, 1, 0, 1]
         = (Inr [], [''Error extracting text from PDF: cannot read page''])
     \<and> main sample_fitz (known_encodings char_codes) [37, 80, 68, 70, 1, 0, 1] 1024 ''cl100k_base''
         = \<lparr>events =
              [ExtractText, StError ''Error extracting text from PDF: cannot read page'',
               StError ''No text could be extracted. This might be a scanned/image-based PDF.'',
               StStop],
            chunks = None\<rparr>"
proof -
  have a: "sample_fitz [37, 80, 68, 70, 1, 0, 1]
       = Inr ([Inr ''Some  text''] @ Inl (PdfError ''cannot read page'') # [Inr ''Some  text''])"
    by (simp add: sample_fitz_def)
  have "sample_fitz [37, 80, 68, 70, 1, 0, 1] = Inl (PdfError ''cannot read page'')
      \<or> (\<exists>before after. sample_fitz [37, 80, 68, 70, 1, 0, 1]
              = Inr (before @ Inl (PdfError ''cannot read page'') # after)
            \<and> (\<forall>p \<in> set before. \<not> isl p))"
  proof (intro disjI2 exI conjI)
    show "sample_fitz [37, 80, 68, 70, 1, 0, 1]
       = Inr ([Inr ''Some  text''] @ Inl (PdfError ''cannot read page'') # [Inr ''Some  text''])"
      by (rule a)
    show "\<forall>p \<in> set [Inr ''Some  text'' :: page]. \<not> isl p" by simp
  qed
  from extractor_failure [of sample_fitz "[37, 80, 68, 70, 1, 0, 1]" "PdfError ''cannot read page''"
      "known_encodings char_codes" 1024 "''cl100k_base''", OF this] a
  show ?thesis by simp
qed

subsection \<open>Unknown encoding names\<close>

text \<open>
  Claim C8 as stated asks that an unknown encoding name fail before any extraction.
  The name is first used by \<^verbatim>\<open>count_tokens\<close>, after the extraction: with an unknown
  name and a document that opens, the extraction runs before the error is reported;
  with an unknown name and a document that does not open, the run stops on the
  missing text and the unknown name is never reported.
\<close>

theorem late_encoding_check_counterexample:
  "known_encodings char_codes ''gpt5'' = Inl (ValueError ''Unknown encoding gpt5'')
     \<and> events (main sample_fitz (known_encodings char_codes) [37, 80, 68, 70, 1] 1024 ''gpt5'')
         = [ExtractText, CountTokens, StError ''Error processing document: Unknown encoding gpt5'']
     \<and> events (main sample_fitz (known_encodings char_codes) [1, 2, 3] 1024 ''gpt5'')
         = [ExtractText, StError ''Error extracting text from PDF: Failed to open stream'',
            StError ''No text could be extracted. This might be a scanned/image-based PDF.'',
            StStop]"
  by (simp add: main_def extract_text_from_academic_pdf_def sample_fitz_def known_encodings_def
      count_tokens_def Let_def clean_academic_text_def collapse_newlines_def merge_split_words_def
      rejoin_hyphenated_def newline_run_def split_word_def hyphen_break_def strip_lines_def
      strip_def is_space_def is_lower_def is_word_def is_newline_def is_hyphen_def
      at_boundary_def keep_def)

text \<open>
  Claim C8, amended. For every request whose encoding name the tokenizer library does
  not know, no chunk is produced and the splitting is never started; the extraction
  always runs first. When it yields text, the lookup fails in the token count that
  follows and the handler of \<^verbatim>\<open>main\<close> reports that exception; when it yields no text,
  the run stops before any lookup.
\<close>

theorem unknown_encoding:
  assumes "get_encoding encoding_name = Inl e"
  shows "chunks (main fitz_open get_encoding pdf_bytes max_tokens encoding_name) = None
           \<and> hd (events (main fitz_open get_encoding pdf_bytes max_tokens encoding_name)) = ExtractText
           \<and> SplitText \<notin> set (events (main fitz_open get_encoding pdf_bytes max_tokens encoding_name))
           \<and> (\<forall>text. fst (extract_text_from_academic_pdf fitz_open pdf_bytes) = Inr text \<longrightarrow>
                 events (main fitz_open get_encoding pdf_bytes max_tokens encoding_name)
                   = (if text = [] then
                        ExtractText # map StError (snd (extract_text_from_academic_pdf fitz_open pdf_bytes))
                          @ [StError ''No text could be extracted. This might be a scanned/image-based PDF.'',
                             StStop]
                      else [ExtractText, CountTokens,
                            StError (''Error processing document: '' @ str e)]))"
proof -
  from extract_returns [of fitz_open pdf_bytes] obtain extracted errors where
    x: "extract_text_from_academic_pdf fitz_open pdf_bytes = (Inr extracted, errors)"
      "extracted \<noteq> [] \<longrightarrow> errors = []"
    by (elim exE conjE)
  from assms have c: "count_tokens get_encoding extracted encoding_name = Inl e"
    by (simp add: count_tokens_def)
  show ?thesis
  proof (cases "extracted = []")
    case True
    with x(1) have x': "extract_text_from_academic_pdf fitz_open pdf_bytes = (Inr [], errors)"
      by simp
    then have m: "main fitz_open get_encoding pdf_bytes max_tokens encoding_name
        = \<lparr>events = ExtractText # map StError errors
                   @ [StError ''No text could be extracted. This might be a scanned/image-based PDF.'',
                      StStop],
           chunks = None\<rparr>"
      by (rule main_no_text)
    show ?thesis
      unfolding m using x' by auto
  next
    case False
    with x have x': "extract_text_from_academic_pdf fitz_open pdf_bytes = (Inr extracted, [])"
      by simp
    from x' c False
    have m: "main fitz_open get_encoding pdf_bytes max_tokens encoding_name
        = \<lparr>events = [ExtractText, CountTokens, StError (''Error processing document: '' @ str e)],
           chunks = None\<rparr>"
      by (simp add: main_def)
    show ?thesis
      unfolding m using x' False by simp
  qed
qed

theorem unknown_encoding_witness:
  "known_encodings char_codes ''gpt5'' = Inl (ValueError ''Unknown encoding gpt5'')
     \<and> fst (extract_text_from_academic_pdf sample_fitz [37, 80, 68, 70, 1]) = Inr ''Some  text''
     \<and> events (main sample_fitz (known_encodings char_codes) [37, 80, 68, 70, 1] 1024 ''gpt5'')
         = [ExtractText, CountTokens, StError ''Error processing document: Unknown encoding gpt5'']
     \<and> chunks (main sample_fitz (known_encodings char_codes) [37, 80, 68, 70, 1] 1024 ''gpt5'') = None"
proof -
  have a: "known_encodings char_codes ''gpt5'' = Inl (ValueError ''Unknown encoding gpt5'')"
    by (simp add: known_encodings_def)
  have b: "fst (extract_text_from_academic_pdf sample_fitz [37, 80, 68, 70, 1]) = Inr ''Some  text''"
    by code_simp
  from unknown_encoding [of "known_encodings char_codes" "''gpt5''" _ sample_fitz
      "[37, 80, 68, 70, 1]" 1024, OF a] a b
  show ?thesis by simp
qed


section \<open>Properties of the normalizer\<close>

subsection \<open>Character classes\<close>

lemma lower_word: "is_lower c \<Longrightarrow> is_word c"
  by (auto simp: is_lower_def is_word_def Let_def)

lemma word_not_space: "is_word c \<Longrightarrow> \<not> is_space c"
  by (auto simp: is_space_def is_word_def Let_def)

lemma lower_not_space: "is_lower c \<Longrightarrow> \<not> is_space c"
  by (auto simp: is_lower_def is_space_def Let_def)

lemma newline_space: "is_space CHR ''\<newline>''"
  by (simp add: is_space_def)

lemma blank_space: "is_space CHR '' ''" "\<not> is_word CHR '' ''" "\<not> is_lower CHR '' ''"
  by (simp_all add: is_space_def is_word_def is_lower_def)

lemma hyphen_plain: "\<not> is_word CHR ''-''" "\<not> is_space CHR ''-''"
  by (simp_all add: is_space_def is_word_def)

subsection \<open>Greedy repetitions\<close>

lemma keeps_simps [simp]:
  "keeps g [] m = m"
  "keeps g (c # w) m = keep g c (keeps g w m)"
  by (simp_all add: keeps_def)

lemma keeps_tuple: "keeps g w (G, p, r) = (G(g := w @ G g), p, r)"
  by (induction w) (auto simp: keep_def fun_eq_iff)

lemma prev_after_simps [simp]:
  "prev_after prev [] = prev"
  "prev_after prev (c # w) = prev_after (Some c) w"
  by (simp_all add: prev_after_def)

text \<open>A repetition at the end of a pattern takes the longest run.\<close>

lemma rmatch_last:
  "rmatch [(g, AtLeast n P)] prev s =
     (if n \<le> length (takeWhile P s)
      then Some (keeps g (takeWhile P s)
                   (\<lambda>_. [], prev_after prev (takeWhile P s), dropWhile P s))
      else None)"
proof (induction s arbitrary: n prev)
  case Nil
  then show ?case by simp
next
  case (Cons c cs)
  show ?case
  proof (cases "P c")
    case True
    then show ?thesis
      by (simp add: Cons.IH) (auto simp: le_diff_conv)
  next
    case False
    then show ?thesis by simp
  qed
qed

text \<open>
  A repetition followed by a pattern that cannot start at a character of the
  repeated class, once such a character has been taken, takes the longest run:
  giving characters back never helps.
\<close>

lemma rmatch_greedy:
  assumes after: "\<And>c' c cs. P c' \<Longrightarrow> P c \<Longrightarrow> rmatch p (Some c') (c # cs) = None"
    and first: "\<And>c cs. n = 0 \<Longrightarrow> P c \<Longrightarrow> rmatch p prev (c # cs) = None"
  shows "rmatch ((g, AtLeast n P) # p) prev s =
     (if n \<le> length (takeWhile P s)
      then map_option (keeps g (takeWhile P s))
             (rmatch p (prev_after prev (takeWhile P s)) (dropWhile P s))
      else None)"
  using first
proof (induction s arbitrary: n prev)
  case Nil
  then show ?case by (simp add: option.map_ident)
next
  case (Cons c cs)
  show ?case
  proof (cases "P c")
    case True
    have ih: "rmatch ((g, AtLeast (n - 1) P) # p) (Some c) cs =
       (if n - 1 \<le> length (takeWhile P cs)
        then map_option (keeps g (takeWhile P cs))
               (rmatch p (prev_after (Some c) (takeWhile P cs)) (dropWhile P cs))
        else None)"
      by (rule Cons.IH) (simp add: after True)
    show ?thesis
    proof (cases "rmatch ((g, AtLeast (n - 1) P) # p) (Some c) cs")
      case None
      with ih True Cons.prems show ?thesis
        by (auto simp: le_diff_conv split: if_splits)
    next
      case (Some m)
      with ih True show ?thesis
        by (auto simp: le_diff_conv split: if_splits)
    qed
  next
    case False
    then show ?thesis by (simp add: option.map_ident)
  qed
qed

subsection \<open>The three patterns in closed form\<close>

lemma prev_after_last: "w \<noteq> [] \<Longrightarrow> prev_after prev w = Some (last w)"
  by (simp add: prev_after_def)

lemma rmatch_newline_run:
  "rmatch newline_run prev s =
     (if 3 \<le> length (takeWhile is_newline s)
      then Some (keeps 0 (takeWhile is_newline s)
                   (\<lambda>_. [], prev_after prev (takeWhile is_newline s), dropWhile is_newline s))
      else None)"
  unfolding newline_run_def by (rule rmatch_last)

lemma rmatch_lower_boundary:
  "rmatch [(2, AtLeast 2 is_lower), (2, WordBoundary)] prev s =
     (let v = takeWhile is_lower s; s3 = dropWhile is_lower s
      in if 2 \<le> length v \<and> at_boundary (Some (last v)) s3
         then Some (keeps 2 v (\<lambda>_. [], Some (last v), s3))
         else None)"
proof -
  have "rmatch [(2, AtLeast 2 is_lower), (2, WordBoundary)] prev s =
     (if 2 \<le> length (takeWhile is_lower s)
      then map_option (keeps 2 (takeWhile is_lower s))
             (rmatch [(2, WordBoundary)] (prev_after prev (takeWhile is_lower s)) (dropWhile is_lower s))
      else None)"
    by (rule rmatch_greedy) (simp_all add: at_boundary_def lower_word)
  moreover have "prev_after prev (takeWhile is_lower s) = Some (last (takeWhile is_lower s))"
    if "2 \<le> length (takeWhile is_lower s)"
    using that by (intro prev_after_last) auto
  ultimately show ?thesis by (simp add: Let_def)
qed

lemma rmatch_space_lower:
  "rmatch [(0, AtLeast 1 is_space), (2, AtLeast 2 is_lower), (2, WordBoundary)] prev s =
     (let ws = takeWhile is_space s; s2 = dropWhile is_space s;
          v = takeWhile is_lower s2; s3 = dropWhile is_lower s2
      in if 1 \<le> length ws \<and> 2 \<le> length v \<and> at_boundary (Some (last v)) s3
         then Some (keeps 0 ws (keeps 2 v (\<lambda>_. [], Some (last v), s3)))
         else None)"
proof -
  have "rmatch ((0, AtLeast 1 is_space) # [(2, AtLeast 2 is_lower), (2, WordBoundary)]) prev s =
     (if 1 \<le> length (takeWhile is_space s)
      then map_option (keeps 0 (takeWhile is_space s))
             (rmatch [(2, AtLeast 2 is_lower), (2, WordBoundary)]
                (prev_after prev (takeWhile is_space s)) (dropWhile is_space s))
      else None)"
  proof (rule rmatch_greedy)
    fix c' c cs
    assume "is_space c'" "is_space c"
    then have "\<not> is_lower c" using lower_not_space by blast
    then show "rmatch [(2, AtLeast 2 is_lower), (2, WordBoundary)] (Some c') (c # cs) = None"
      by simp
  qed simp
  then show ?thesis by (simp add: rmatch_lower_boundary Let_def del: One_nat_def)
qed

lemma rmatch_split_word:
  "rmatch split_word prev s =
     (let u = takeWhile is_lower s; s1 = dropWhile is_lower s;
          ws = takeWhile is_space s1; s2 = dropWhile is_space s1;
          v = takeWhile is_lower s2; s3 = dropWhile is_lower s2
      in if at_boundary prev s \<and> 2 \<le> length u \<and> 1 \<le> length ws \<and> 2 \<le> length v
            \<and> at_boundary (Some (last v)) s3
         then Some (keeps 1 u (keeps 0 ws (keeps 2 v (\<lambda>_. [], Some (last v), s3))))
         else None)"
proof -
  let ?q = "[(0, AtLeast 1 is_space), (2, AtLeast 2 is_lower), (2, WordBoundary)]"
  have "rmatch ((1, AtLeast 2 is_lower) # ?q) prev s =
     (if 2 \<le> length (takeWhile is_lower s)
      then map_option (keeps 1 (takeWhile is_lower s))
             (rmatch ?q (prev_after prev (takeWhile is_lower s)) (dropWhile is_lower s))
      else None)"
  proof (rule rmatch_greedy)
    fix c' c cs
    assume "is_lower c'" "is_lower c"
    then have "\<not> is_space c" using lower_not_space by blast
    then show "rmatch ?q (Some c') (c # cs) = None"
      by simp
  qed simp
  then show ?thesis by (simp add: split_word_def rmatch_space_lower Let_def del: One_nat_def)
qed

lemma rmatch_space_word:
  "rmatch [(0, AtLeast 0 is_space), (2, AtLeast 1 is_word)] prev s =
     (let ws = takeWhile is_space s; s3 = dropWhile is_space s;
          v = takeWhile is_word s3; rest = dropWhile is_word s3
      in if 1 \<le> length v
         then Some (keeps 0 ws (keeps 2 v (\<lambda>_. [], Some (last v), rest)))
         else None)"
proof -
  have "rmatch ((0, AtLeast 0 is_space) # [(2, AtLeast 1 is_word)]) prev s =
     (if 0 \<le> length (takeWhile is_space s)
      then map_option (keeps 0 (takeWhile is_space s))
             (rmatch [(2, AtLeast 1 is_word)]
                (prev_after prev (takeWhile is_space s)) (dropWhile is_space s))
      else None)"
  proof (rule rmatch_greedy)
    fix c' c cs
    assume "is_space c'" "is_space c"
    then have "\<not> is_word c" using word_not_space by blast
    then show "rmatch [(2, AtLeast 1 is_word)] (Some c') (c # cs) = None"
      by simp
  next
    fix c cs
    assume "is_space c"
    then have "\<not> is_word c" using word_not_space by blast
    then show "rmatch [(2, AtLeast 1 is_word)] prev (c # cs) = None"
      by simp
  qed
  moreover have "prev_after p (takeWhile is_word t) = Some (last (takeWhile is_word t))"
    if "1 \<le> length (takeWhile is_word t)" for p t
    using that by (intro prev_after_last) auto
  ultimately show ?thesis by (simp add: rmatch_last Let_def del: One_nat_def)
qed

lemma rmatch_break:
  "rmatch [(0, AtLeast 0 is_space), (0, One is_newline), (0, AtLeast 0 is_space),
           (2, AtLeast 1 is_word)] prev s =
     (let ws = takeWhile is_space s; s3 = dropWhile is_space s;
          v = takeWhile is_word s3; rest = dropWhile is_word s3
      in if CHR ''\<newline>'' \<in> set ws \<and> 1 \<le> length v
         then Some (keeps 0 ws (keeps 2 v (\<lambda>_. [], Some (last v), rest)))
         else None)"
proof (induction s arbitrary: prev)
  case Nil
  then show ?case by simp
next
  case (Cons c cs)
  let ?q = "[(0, One is_newline), (0, AtLeast 0 is_space), (2, AtLeast 1 is_word)]"
  let ?A = "rmatch ((0, AtLeast 0 is_space) # ?q) (Some c) cs"
  have q: "rmatch ?q prev (c # cs) =
      (if c = CHR ''\<newline>''
       then map_option (keep 0 c) (rmatch [(0, AtLeast 0 is_space), (2, AtLeast 1 is_word)] (Some c) cs)
       else None)"
    by (simp add: is_newline_def del: One_nat_def)
  show ?case
  proof (cases "is_space c")
    case True
    have A: "?A =
       (let ws = takeWhile is_space cs; s3 = dropWhile is_space cs;
            v = takeWhile is_word s3; rest = dropWhile is_word s3
        in if CHR ''\<newline>'' \<in> set ws \<and> 1 \<le> length v
           then Some (keeps 0 ws (keeps 2 v (\<lambda>_. [], Some (last v), rest)))
           else None)"
      by (rule Cons.IH)
    from True have step: "rmatch ((0, AtLeast 0 is_space) # ?q) prev (c # cs) =
        (case ?A of Some m \<Rightarrow> Some (keep 0 c m) | None \<Rightarrow> rmatch ?q prev (c # cs))"
      by (simp del: One_nat_def)
    show ?thesis
      unfolding step A q rmatch_space_word using True
      by (auto simp: Let_def simp del: One_nat_def)
  next
    case False
    then have "c \<noteq> CHR ''\<newline>''" using newline_space by auto
    with False q show ?thesis by (simp del: One_nat_def)
  qed
qed

lemma rmatch_hyphen_break:
  "rmatch hyphen_break prev s =
     (let u = takeWhile is_word s; s1 = dropWhile is_word s;
          ws = takeWhile is_space (tl s1); s3 = dropWhile is_space (tl s1);
          v = takeWhile is_word s3; rest = dropWhile is_word s3
      in if 1 \<le> length u \<and> s1 \<noteq> [] \<and> hd s1 = CHR ''-'' \<and> CHR ''\<newline>'' \<in> set ws
            \<and> 1 \<le> length v
         then Some (keeps 1 u (keep 0 CHR ''-''
                      (keeps 0 ws (keeps 2 v (\<lambda>_. [], Some (last v), rest)))))
         else None)"
proof -
  let ?q = "[(0, AtLeast 0 is_space), (0, One is_newline), (0, AtLeast 0 is_space),
             (2, AtLeast 1 is_word)]"
  have "rmatch ((1, AtLeast 1 is_word) # (0, One is_hyphen) # ?q) prev s =
     (if 1 \<le> length (takeWhile is_word s)
      then map_option (keeps 1 (takeWhile is_word s))
             (rmatch ((0, One is_hyphen) # ?q) (prev_after prev (takeWhile is_word s))
                (dropWhile is_word s))
      else None)"
  proof (rule rmatch_greedy)
    fix c' c cs
    assume "is_word c'" "is_word c"
    then have "\<not> is_hyphen c" using hyphen_plain by (auto simp: is_hyphen_def)
    then show "rmatch ((0, One is_hyphen) # ?q) (Some c') (c # cs) = None"
      by simp
  qed simp
  moreover have "rmatch ((0, One is_hyphen) # ?q) p t =
      (if t \<noteq> [] \<and> hd t = CHR ''-'' then map_option (keep 0 CHR ''-'') (rmatch ?q (Some CHR ''-'') (tl t))
       else None)" for p t
    by (cases t) (simp_all add: is_hyphen_def)
  ultimately show ?thesis
    by (simp add: hyphen_break_def rmatch_break Let_def del: One_nat_def)
qed

subsection \<open>Scanning with \<open>re_sub\<close>\<close>

declare re_sub.simps [simp del]

lemma re_sub_nil: "rmatch p prev [] = None \<Longrightarrow> re_sub p repl prev [] = []"
  by (simp add: re_sub.simps [of p repl prev "[]"])

lemma re_sub_copy:
  "rmatch p prev (c # cs) = None \<Longrightarrow> re_sub p repl prev (c # cs) = c # re_sub p repl (Some c) cs"
  by (simp add: re_sub.simps [of p repl prev "c # cs"])

lemma re_sub_match:
  "rmatch p prev s = Some (groups, prev', rest) \<Longrightarrow> length rest < length s \<Longrightarrow>
     re_sub p repl prev s = expand repl groups @ re_sub p repl prev' rest"
  by (simp add: re_sub.simps [of p repl prev s])

lemma re_sub_copy_run:
  assumes "\<And>prev c cs. c \<in> set w \<Longrightarrow> rmatch p prev (c # cs) = None"
  shows "re_sub p repl prev (w @ r) = w @ re_sub p repl (prev_after prev w) r"
  using assms
proof (induction w arbitrary: prev)
  case Nil
  then show ?case by simp
next
  case (Cons c w)
  have "rmatch p prev (c # w @ r) = None" by (rule Cons.prems) simp
  then have "re_sub p repl prev ((c # w) @ r) = c # re_sub p repl (Some c) (w @ r)"
    by (simp add: re_sub_copy)
  also have "re_sub p repl (Some c) (w @ r) = w @ re_sub p repl (prev_after (Some c) w) r"
    by (rule Cons.IH) (simp add: Cons.prems)
  finally show ?case by simp
qed

lemma run_split:
  assumes "\<forall>c \<in> set u. P c" and "r = [] \<or> \<not> P (hd r)"
  shows "takeWhile P (u @ r) = u" and "dropWhile P (u @ r) = r"
  using assms by (cases r; simp add: takeWhile_append2 dropWhile_append2)+

lemma expand_refs: "expand [Ref 1, Ref 2] groups = groups 1 @ groups 2"
  by simp

subsection \<open>Scanning a text in two parts\<close>

lemma prev_after_append: "prev_after prev (a @ b) = prev_after (prev_after prev a) b"
  by (induction a arbitrary: prev) simp_all

text \<open>A match takes a prefix of the text and returns the character before the rest.\<close>

lemma rmatch_consumes:
  "rmatch p prev s = Some (G, pv, r) \<Longrightarrow> \<exists>m. s = m @ r \<and> pv = prev_after prev m"
proof (induction p prev s arbitrary: G pv r rule: rmatch.induct)
  case (1 prev s)
  then show ?case by simp
next
  case (2 g p prev s)
  then show ?case by (simp split: if_splits)
next
  case (3 g P p prev)
  then show ?case by simp
next
  case (4 g P p prev c cs)
  from "4.prems" obtain G' where pc: "P c" and m: "rmatch p (Some c) cs = Some (G', pv, r)"
    by (auto simp: keep_def split: if_splits)
  from "4.IH" [OF pc m] obtain m' where "cs = m' @ r" "pv = prev_after (Some c) m'" by blast
  then have "c # cs = (c # m') @ r \<and> pv = prev_after prev (c # m')" by simp
  then show ?case by blast
next
  case (5 g n P p prev)
  then show ?case by (simp split: if_splits)
next
  case (6 g n P p prev c cs)
  show ?case
  proof (cases "P c")
    case True
    show ?thesis
    proof (cases "rmatch ((g, AtLeast (n - 1) P) # p) (Some c) cs")
      case None
      with True "6.prems" have "n = 0" "rmatch p prev (c # cs) = Some (G, pv, r)"
        by (simp_all split: if_splits)
      with "6.IH"(2) [OF True None] show ?thesis by blast
    next
      case (Some m)
      obtain G' pv' r' where m: "m = (G', pv', r')" by (cases m)
      with True Some "6.prems" have "pv' = pv" "r' = r" by (simp_all add: keep_def)
      with Some m have "rmatch ((g, AtLeast (n - 1) P) # p) (Some c) cs = Some (G', pv, r)" by simp
      from "6.IH"(1) [OF True this] obtain m' where "cs = m' @ r" "pv = prev_after (Some c) m'"
        by blast
      then have "c # cs = (c # m') @ r \<and> pv = prev_after prev (c # m')" by simp
      then show ?thesis by blast
    qed
  next
    case False
    with "6.prems" have "n = 0" "rmatch p prev (c # cs) = Some (G, pv, r)"
      by (simp_all split: if_splits)
    with "6.IH"(3) [OF False] show ?thesis by blast
  qed
qed

text \<open>
  When no match that starts in the first part \<open>pre\<close> is changed by what follows it,
  the scan of \<open>pre @ s\<close> is the scan of \<open>pre\<close> followed by the scan of \<open>s\<close>.
\<close>

lemma re_sub_append:
  assumes consumes: "\<And>prev s G pv r. rmatch p prev s = Some (G, pv, r) \<Longrightarrow> length r < length s"
    and stable: "\<And>a b. pre = a @ b \<Longrightarrow> b \<noteq> [] \<Longrightarrow>
        rmatch p (prev_after prev a) (b @ s)
          = map_option (\<lambda>(G, pv, r). (G, pv, r @ s)) (rmatch p (prev_after prev a) b)"
  shows "re_sub p repl prev (pre @ s) = re_sub p repl prev pre @ re_sub p repl (prev_after prev pre) s"
  using stable
proof (induction "length pre" arbitrary: pre prev rule: less_induct)
  case less
  show ?case
  proof (cases pre)
    case Nil
    have "rmatch p prev [] = None"
    proof (cases "rmatch p prev []")
      case (Some m)
      obtain G pv r where "m = (G, pv, r)" by (cases m)
      with Some consumes [of prev "[]" G pv r] show ?thesis by simp
    qed simp
    with Nil show ?thesis by (simp add: re_sub_nil)
  next
    case (Cons c cs)
    from less.prems [of "[]" pre] Cons
    have st: "rmatch p prev (pre @ s) = map_option (\<lambda>(G, pv, r). (G, pv, r @ s)) (rmatch p prev pre)"
      by simp
    show ?thesis
    proof (cases "rmatch p prev pre")
      case None
      with st have n2: "rmatch p prev (c # cs @ s) = None" using Cons by simp
      have ih: "re_sub p repl (Some c) (cs @ s)
          = re_sub p repl (Some c) cs @ re_sub p repl (prev_after (Some c) cs) s"
      proof (rule less.hyps)
        show "length cs < length pre" using Cons by simp
        fix a b
        assume ab: "cs = a @ b" "b \<noteq> []"
        with Cons have "pre = (c # a) @ b" by simp
        from less.prems [OF this ab(2)]
        show "rmatch p (prev_after (Some c) a) (b @ s)
          = map_option (\<lambda>(G, pv, r). (G, pv, r @ s)) (rmatch p (prev_after (Some c) a) b)"
          by simp
      qed
      from None Cons have "re_sub p repl prev pre = c # re_sub p repl (Some c) cs"
        by (simp add: re_sub_copy)
      moreover from n2 have "re_sub p repl prev (pre @ s) = c # re_sub p repl (Some c) (cs @ s)"
        using Cons by (simp add: re_sub_copy)
      ultimately show ?thesis using ih Cons by simp
    next
      case (Some m)
      obtain G pv r where m: "m = (G, pv, r)" by (cases m)
      with Some have A: "rmatch p prev pre = Some (G, pv, r)" by simp
      from rmatch_consumes [OF A] obtain mt where mt: "pre = mt @ r" "pv = prev_after prev mt"
        by blast
      from consumes [OF A] have len: "length r < length pre" .
      from st A have B: "rmatch p prev (pre @ s) = Some (G, pv, r @ s)" by simp
      have ih: "re_sub p repl pv (r @ s) = re_sub p repl pv r @ re_sub p repl (prev_after pv r) s"
      proof (rule less.hyps [OF len])
        fix a b
        assume ab: "r = a @ b" "b \<noteq> []"
        with mt have "pre = (mt @ a) @ b" by simp
        from less.prems [OF this ab(2)] mt(2)
        show "rmatch p (prev_after pv a) (b @ s)
          = map_option (\<lambda>(G, pv, r). (G, pv, r @ s)) (rmatch p (prev_after pv a) b)"
          by (simp add: prev_after_append)
      qed
      from A len have "re_sub p repl prev pre = expand repl G @ re_sub p repl pv r"
        by (rule re_sub_match)
      moreover from B len have "re_sub p repl prev (pre @ s) = expand repl G @ re_sub p repl pv (r @ s)"
        by (intro re_sub_match) simp_all
      moreover from mt have "prev_after pv r = prev_after prev pre"
        by (simp add: prev_after_append)
      ultimately show ?thesis using ih by simp
    qed
  qed
qed

subsection \<open>The hyphen step\<close>

lemma hyphen_break_prev: "rmatch hyphen_break prev s = rmatch hyphen_break prev' s"
  by (simp add: rmatch_hyphen_break)

lemma hyphen_sub_prev:
  "re_sub hyphen_break repl prev s = re_sub hyphen_break repl prev' s"
  by (subst re_sub.simps, subst (2) re_sub.simps) (simp add: hyphen_break_prev [of prev s prev'])

lemma hyphen_break_no_word: "\<not> is_word c \<Longrightarrow> rmatch hyphen_break prev (c # cs) = None"
  by (simp add: rmatch_hyphen_break)

lemma hyphen_break_at_word:
  assumes u: "u \<noteq> []" "\<forall>c \<in> set u. is_word c"
    and ws: "\<forall>c \<in> set ws. is_space c" "CHR ''\<newline>'' \<in> set ws"
    and v: "v \<noteq> []" "\<forall>c \<in> set v. is_word c"
    and rest: "rest = [] \<or> \<not> is_word (hd rest)"
  shows "rmatch hyphen_break prev (u @ CHR ''-'' # ws @ v @ rest) =
           Some (keeps 1 u (keep 0 CHR ''-''
                   (keeps 0 ws (keeps 2 v (\<lambda>_. [], Some (last v), rest)))))"
proof -
  let ?s = "u @ CHR ''-'' # ws @ v @ rest"
  have "CHR ''-'' # ws @ v @ rest = [] \<or> \<not> is_word (hd (CHR ''-'' # ws @ v @ rest))"
    using hyphen_plain(1) by simp
  with u(2) have a: "takeWhile is_word ?s = u" "dropWhile is_word ?s = CHR ''-'' # ws @ v @ rest"
    by (rule run_split)+
  have "\<not> is_space (hd (v @ rest))"
    using v word_not_space [of "hd v"] by (cases v) simp_all
  then have "v @ rest = [] \<or> \<not> is_space (hd (v @ rest))" ..
  with ws(1) have b: "takeWhile is_space (ws @ v @ rest) = ws"
      "dropWhile is_space (ws @ v @ rest) = v @ rest"
    by (rule run_split)+
  from v(2) rest have c: "takeWhile is_word (v @ rest) = v" "dropWhile is_word (v @ rest) = rest"
    by (rule run_split)+
  from u(1) v(1) ws(2) show ?thesis
    by (simp add: rmatch_hyphen_break a b c Let_def Suc_le_eq)
qed

subsection \<open>Hyphenated words at line breaks\<close>

lemma hyphen_sub_nil: "re_sub hyphen_break repl prev [] = []"
  by (rule re_sub_nil) (simp add: rmatch_hyphen_break)

lemma rmatch_shorter: "rmatch p prev s = Some (G, pv, r) \<Longrightarrow> length r \<le> length s"
  by (drule rmatch_consumes) auto

lemma hyphen_break_consumes:
  assumes "rmatch hyphen_break prev s = Some (G, pv, r)"
  shows "length r < length s"
proof (cases s)
  case Nil
  with assms show ?thesis by (simp add: rmatch_hyphen_break)
next
  case (Cons c cs)
  let ?q = "(0, One is_hyphen) # [(0, AtLeast 0 is_space), (0, One is_newline),
      (0, AtLeast 0 is_space), (2, AtLeast 1 is_word)]"
  from assms Cons obtain m where
    "rmatch ((1, AtLeast (1 - 1) is_word) # ?q) (Some c) cs = Some m" "Some (keep 1 c m) = Some (G, pv, r)"
    by (auto simp: hyphen_break_def split: if_splits option.splits simp del: One_nat_def)
  then obtain G' where "rmatch ((1, AtLeast (1 - 1) is_word) # ?q) (Some c) cs = Some (G', pv, r)"
    by (cases m) (auto simp: keep_def)
  then have "length r \<le> length cs" by (rule rmatch_shorter)
  with Cons show ?thesis by simp
qed

lemma suffix_last:
  assumes "b = x @ y" and "y \<noteq> []"
  shows "last y = last b"
  using assms by simp

text \<open>
  A text \<open>b\<close> that ends in a character outside the words and does not end in a hyphen
  break: what follows \<open>b\<close> does not change a match that starts at the start of \<open>b\<close>.
\<close>

lemma hyphen_break_stable:
  assumes b: "b \<noteq> []" "\<not> is_word (last b)"
    and s: "s \<noteq> []" "is_word (hd s)"
    and open_break: "\<not> (\<exists>w ws. b = w @ CHR ''-'' # ws \<and> w \<noteq> [] \<and> (\<forall>c \<in> set w. is_word c)
          \<and> (\<forall>c \<in> set ws. is_space c) \<and> CHR ''\<newline>'' \<in> set ws)"
  shows "rmatch hyphen_break prev (b @ s)
           = map_option (\<lambda>(G, pv, r). (G, pv, r @ s)) (rmatch hyphen_break prev b)"
proof -
  let ?U = "takeWhile is_word b" and ?s1 = "dropWhile is_word b"
  from b have lb: "last b \<in> set b" by simp
  with b(2) have tw: "takeWhile is_word (b @ s) = ?U" "dropWhile is_word (b @ s) = ?s1 @ s"
    by (simp_all add: takeWhile_append1 dropWhile_append1)
  from lb b(2) have s1: "?s1 \<noteq> []" by auto
  then have tl1: "tl (?s1 @ s) = tl ?s1 @ s" "hd (?s1 @ s) = hd ?s1" by simp_all
  have bU: "b = ?U @ hd ?s1 # tl ?s1" using s1 by simp
  from s have hs: "\<not> is_space (hd s)" using word_not_space by blast
  show ?thesis
  proof (cases "\<forall>c \<in> set (tl ?s1). is_space c")
    case True
    from True have "s = [] \<or> \<not> is_space (hd s)" using hs by simp
    with True have sp: "takeWhile is_space (tl ?s1 @ s) = tl ?s1" "dropWhile is_space (tl ?s1 @ s) = s"
      by (rule run_split)+
    from True have sp0: "takeWhile is_space (tl ?s1) = tl ?s1" "dropWhile is_space (tl ?s1) = []"
      by simp_all
    have "\<not> (1 \<le> length ?U \<and> hd ?s1 = CHR ''-'' \<and> CHR ''\<newline>'' \<in> set (tl ?s1))"
    proof
      assume h: "1 \<le> length ?U \<and> hd ?s1 = CHR ''-'' \<and> CHR ''\<newline>'' \<in> set (tl ?s1)"
      then have "?U \<noteq> []" by auto
      moreover have "\<forall>c \<in> set ?U. is_word c" by (auto dest: set_takeWhileD)
      moreover from bU h have "b = ?U @ CHR ''-'' # tl ?s1" by simp
      ultimately show False using open_break True h by blast
    qed
    then show ?thesis
      by (auto simp: rmatch_hyphen_break tw tl1 sp sp0 Let_def simp del: One_nat_def)
  next
    case False
    then obtain x where x: "x \<in> set (tl ?s1)" "\<not> is_space x" by blast
    then have sp: "takeWhile is_space (tl ?s1 @ s) = takeWhile is_space (tl ?s1)"
        "dropWhile is_space (tl ?s1 @ s) = dropWhile is_space (tl ?s1) @ s"
      by (simp_all add: takeWhile_append1 dropWhile_append1)
    let ?s3 = "dropWhile is_space (tl ?s1)"
    from x have s3: "?s3 \<noteq> []" by auto
    have "b = (?U @ hd ?s1 # takeWhile is_space (tl ?s1)) @ ?s3"
      using bU by simp
    from suffix_last [OF this s3] b(2) have "\<not> is_word (last ?s3)" by simp
    moreover from s3 have "last ?s3 \<in> set ?s3" by simp
    ultimately have w: "takeWhile is_word (?s3 @ s) = takeWhile is_word ?s3"
        "dropWhile is_word (?s3 @ s) = dropWhile is_word ?s3 @ s"
      by (simp_all add: takeWhile_append1 dropWhile_append1)
    from lb b(2) have nall: "\<not> Ball (set b) is_word" by blast
    show ?thesis
      by (simp add: rmatch_hyphen_break tw tl1 sp w Let_def keeps_tuple keep_def nall del: One_nat_def)
  qed
qed

text \<open>
  Claim C10 as stated joins a run that ends in a hyphen with the next run whenever
  whitespace with a newline separates them. The substitution goes through the text
  once, from the left, and a run taken as the second run of one join is not the first
  run of another: in a chain of two breaks only the first is joined.
\<close>

theorem hyphen_chain_counterexample:
  "rejoin_hyphenated ''inter-\<newline>nation-\<newline>al'' = ''internation-\<newline>al''
     \<and> clean_academic_text ''inter-\<newline>nation-\<newline>al'' = ''internation-\<newline>\<newline>al''"
  by code_simp

text \<open>
  Claim C10, amended. The hyphen step joins a run \<open>u\<close> of word characters that ends in
  a hyphen with the next run \<open>v\<close> of word characters whenever the whitespace between
  the hyphen and \<open>v\<close> holds at least one newline, provided that the text before \<open>u\<close>
  does not end in such a break (a run of word characters, a hyphen and whitespace
  with a newline; \<open>u\<close> may then be the second run of the join before it). Spaces
  before the newline and blank lines after the hyphen are removed with the hyphen,
  and the runs may hold letters of either case, digits and underscores. \<open>pre\<close> is the
  text before \<open>u\<close> and \<open>rest\<close> the text after \<open>v\<close> (\<open>u\<close> and \<open>v\<close> are whole runs); the
  step treats \<open>pre\<close> and \<open>rest\<close> as texts of their own.
\<close>

theorem hyphen_rejoin:
  assumes pre: "pre = [] \<or> \<not> is_word (last pre)"
    and open_break: "\<not> (\<exists>p w ws'. pre = p @ w @ ''-'' @ ws' \<and> w \<noteq> [] \<and> (\<forall>c \<in> set w. is_word c)
          \<and> (\<forall>c \<in> set ws'. is_space c) \<and> CHR ''\<newline>'' \<in> set ws')"
    and u: "u \<noteq> []" "\<forall>c \<in> set u. is_word c"
    and ws: "\<forall>c \<in> set ws. is_space c" "CHR ''\<newline>'' \<in> set ws"
    and v: "v \<noteq> []" "\<forall>c \<in> set v. is_word c"
    and rest: "rest = [] \<or> \<not> is_word (hd rest)"
  shows "rejoin_hyphenated (pre @ u @ ''-'' @ ws @ v @ rest)
           = rejoin_hyphenated pre @ u @ v @ rejoin_hyphenated rest"
proof -
  let ?t = "[Ref 1, Ref 2]"
  let ?s = "u @ CHR ''-'' # ws @ v @ rest"
  let ?G = "keeps 1 u (keep 0 CHR ''-'' (keeps 0 ws (keeps 2 v (\<lambda>_. [], Some (last v), rest))))"
  have G: "?G = (((\<lambda>_. [])(2 := v, 0 := CHR ''-'' # ws, 1 := u)), Some (last v), rest)"
    by (simp add: keeps_tuple keep_def fun_eq_iff)
  have m: "rmatch hyphen_break (prev_after None pre) ?s = Some ?G"
    using u ws v rest by (rule hyphen_break_at_word)
  from u have s: "?s \<noteq> []" "is_word (hd ?s)" by (cases u; simp)+
  have "re_sub hyphen_break ?t None (pre @ ?s)
      = re_sub hyphen_break ?t None pre @ re_sub hyphen_break ?t (prev_after None pre) ?s"
  proof (rule re_sub_append)
    fix prev s G pv r
    assume "rmatch hyphen_break prev s = Some (G, pv, r)"
    then show "length r < length s" by (rule hyphen_break_consumes)
  next
    fix a b
    assume ab: "pre = a @ b" "b \<noteq> []"
    with pre have lb: "\<not> is_word (last b)" by auto
    have nb: "\<not> (\<exists>w ws. b = w @ CHR ''-'' # ws \<and> w \<noteq> [] \<and> (\<forall>c \<in> set w. is_word c)
          \<and> (\<forall>c \<in> set ws. is_space c) \<and> CHR ''\<newline>'' \<in> set ws)"
    proof
      assume "\<exists>w ws. b = w @ CHR ''-'' # ws \<and> w \<noteq> [] \<and> (\<forall>c \<in> set w. is_word c)
          \<and> (\<forall>c \<in> set ws. is_space c) \<and> CHR ''\<newline>'' \<in> set ws"
      then obtain w ws' where w: "b = w @ CHR ''-'' # ws'" "w \<noteq> []" "\<forall>c \<in> set w. is_word c"
          "\<forall>c \<in> set ws'. is_space c" "CHR ''\<newline>'' \<in> set ws'"
        by blast
      with ab have "pre = a @ w @ ''-'' @ ws'" by simp
      with w open_break show False by blast
    qed
    from ab(2) lb s nb
    show "rmatch hyphen_break (prev_after None a) (b @ ?s)
        = map_option (\<lambda>(G, pv, r). (G, pv, r @ ?s)) (rmatch hyphen_break (prev_after None a) b)"
      by (rule hyphen_break_stable)
  qed
  also have "re_sub hyphen_break ?t (prev_after None pre) ?s
      = expand ?t ((\<lambda>_. [])(2 := v, 0 := CHR ''-'' # ws, 1 := u))
          @ re_sub hyphen_break ?t (Some (last v)) rest"
    using m unfolding G by (rule re_sub_match) simp
  also have "expand ?t ((\<lambda>_. [])(2 := v, 0 := CHR ''-'' # ws, 1 := u)) = u @ v"
    by simp
  also have "re_sub hyphen_break ?t (Some (last v)) rest = re_sub hyphen_break ?t None rest"
    by (rule hyphen_sub_prev)
  finally show ?thesis by (simp add: rejoin_hyphenated_def)
qed

theorem hyphen_rejoin_witness:
  "\<not> is_word (last ''See a '') \<and> list_all is_word ''multi'' \<and> list_all is_space '' \<newline>\<newline> ''
     \<and> CHR ''\<newline>'' \<in> set '' \<newline>\<newline> '' \<and> list_all is_word ''word'' \<and> \<not> is_word (hd ''.'')
     \<and> rejoin_hyphenated ''See a multi- \<newline>\<newline> word.'' = ''See a multiword.''
     \<and> list_all is_word ''AB1'' \<and> list_all is_word ''2C''
     \<and> rejoin_hyphenated ''AB1-\<newline>2C'' = ''AB12C''"
proof -
  have a: "list_all is_word ''multi''" "list_all is_space '' \<newline>\<newline> ''" "list_all is_word ''word''"
    "list_all is_word ''AB1''" "list_all is_word ''2C''" "list_all is_space ''\<newline>''"
    "\<not> is_word (last ''See a '')" "\<not> is_word (hd ''.'')"
    by (simp_all add: is_word_def is_space_def)
  have e: "rejoin_hyphenated [] = []" "rejoin_hyphenated ''See a '' = ''See a ''"
    "rejoin_hyphenated ''.'' = ''.''"
    by code_simp+
  have no_break: "\<not> (\<exists>p w ws'. ''See a '' = p @ w @ ''-'' @ ws' \<and> w \<noteq> [] \<and> (\<forall>c \<in> set w. is_word c)
          \<and> (\<forall>c \<in> set ws'. is_space c) \<and> CHR ''\<newline>'' \<in> set ws')"
  proof
    assume "\<exists>p w ws'. ''See a '' = p @ w @ ''-'' @ ws' \<and> w \<noteq> [] \<and> (\<forall>c \<in> set w. is_word c)
          \<and> (\<forall>c \<in> set ws'. is_space c) \<and> CHR ''\<newline>'' \<in> set ws'"
    then obtain p w ws' where w: "''See a '' = p @ w @ ''-'' @ ws'" by blast
    have "CHR ''-'' \<in> set (p @ w @ ''-'' @ ws')" by simp
    then have "CHR ''-'' \<in> set ''See a ''" by (simp only: w [symmetric])
    then show False by simp
  qed
  from a have "rejoin_hyphenated (''See a '' @ ''multi'' @ ''-'' @ '' \<newline>\<newline> '' @ ''word'' @ ''.'')
      = rejoin_hyphenated ''See a '' @ ''multi'' @ ''word'' @ rejoin_hyphenated ''.''"
    by (intro hyphen_rejoin no_break) (simp_all add: list_all_iff)
  moreover from a have "rejoin_hyphenated ([] @ ''AB1'' @ ''-'' @ ''\<newline>'' @ ''2C'' @ [])
      = rejoin_hyphenated [] @ ''AB1'' @ ''2C'' @ rejoin_hyphenated []"
    by (intro hyphen_rejoin) (simp_all add: list_all_iff)
  ultimately show ?thesis using a e by simp
qed

text \<open>The example of the claim through the whole normalizer.\<close>

lemma hyphen_example_normalizer:
  "clean_academic_text ''multi- \<newline>\<newline> word'' = ''multiword''"
  by code_simp

subsection \<open>Scenario C\<close>

text \<open>
  Claim C6. On the text \<open>ran dom access\<close>, four newlines, \<open>memory\<close>, the claim
  expects \<open>random access\<close>, a blank line, \<open>memory\<close>. The word pattern separates its two
  groups by \<^verbatim>\<open>\s+\<close>, which also matches the two newlines left between \<open>access\<close> and
  \<open>memory\<close>: the code joins the two words and the paragraph break is lost.
\<close>

theorem scenario_c_output:
  "clean_academic_text ''ran dom access\<newline>\<newline>\<newline>\<newline>memory'' = ''random accessmemory''"
  by code_simp


subsection \<open>The word-merge step\<close>

lemma split_word_nil: "rmatch split_word prev [] = None"
  by (simp add: rmatch_split_word)

lemma split_word_not_lower: "\<not> is_lower c \<Longrightarrow> rmatch split_word prev (c # cs) = None"
  by (simp add: rmatch_split_word)

lemma split_word_inside: "is_word c' \<Longrightarrow> is_word c \<Longrightarrow> rmatch split_word (Some c') (c # cs) = None"
  by (simp add: rmatch_split_word at_boundary_def)

text \<open>No match starts in a run of word characters that ends the text.\<close>

lemma split_word_last_run:
  assumes "\<forall>c \<in> set w. is_word c"
  shows "rmatch split_word prev w = None"
proof -
  let ?s1 = "dropWhile is_lower w"
  have "takeWhile is_space ?s1 = []"
  proof (cases ?s1)
    case Nil
    then show ?thesis by (simp only: takeWhile.simps)
  next
    case (Cons c cs)
    then have "c \<in> set w" by (metis list.set_intros(1) set_dropWhileD)
    with assms have "\<not> is_space c" using word_not_space by blast
    with Cons show ?thesis by simp
  qed
  then show ?thesis by (simp add: rmatch_split_word Let_def)
qed

text \<open>After a word character, the word characters that follow are copied.\<close>

lemma split_word_scan_word:
  assumes "\<forall>x \<in> set xs. is_word x" and "is_word c'"
  shows "re_sub split_word repl (Some c') (xs @ r)
           = xs @ re_sub split_word repl (prev_after (Some c') xs) r"
  using assms
proof (induction xs arbitrary: c')
  case Nil
  then show ?case by simp
next
  case (Cons x xs)
  from Cons.prems have x: "is_word x" by simp
  with Cons.prems have "rmatch split_word (Some c') (x # xs @ r) = None"
    by (simp add: split_word_inside)
  then have "re_sub split_word repl (Some c') ((x # xs) @ r)
      = x # re_sub split_word repl (Some x) (xs @ r)"
    by (simp add: re_sub_copy)
  also have "re_sub split_word repl (Some x) (xs @ r)
      = xs @ re_sub split_word repl (prev_after (Some x) xs) r"
    using Cons.prems x by (intro Cons.IH) simp_all
  finally show ?case by simp
qed

lemma split_word_sub_run:
  assumes "\<forall>c \<in> set w. is_word c"
  shows "re_sub split_word repl prev w = w"
proof (cases w)
  case Nil
  then show ?thesis by (simp add: re_sub_nil split_word_nil)
next
  case (Cons c cs)
  from assms Cons have c: "is_word c" and cs: "\<forall>x \<in> set cs. is_word x" by simp_all
  from assms Cons have "rmatch split_word prev (c # cs) = None"
    using split_word_last_run [of "c # cs" prev] by simp
  then have "re_sub split_word repl prev (c # cs) = c # re_sub split_word repl (Some c) cs"
    by (rule re_sub_copy)
  also have "re_sub split_word repl (Some c) cs
      = cs @ re_sub split_word repl (prev_after (Some c) cs) []"
    using split_word_scan_word [OF cs c, of repl "[]"] by simp
  also have "re_sub split_word repl (prev_after (Some c) cs) [] = []"
    by (simp add: re_sub_nil split_word_nil)
  finally show ?thesis using Cons by simp
qed

lemma split_word_consumes:
  assumes "rmatch split_word prev s = Some (G, pv, r)"
  shows "length r < length s"
proof (cases s)
  case Nil
  with assms show ?thesis by (simp add: split_word_nil)
next
  case (Cons c cs)
  let ?q = "[(0, AtLeast 1 is_space), (2, AtLeast 2 is_lower), (2, WordBoundary)]"
  from assms Cons obtain m where
    "rmatch ((1, AtLeast (2 - 1) is_lower) # ?q) (Some c) cs = Some m" "Some (keep 1 c m) = Some (G, pv, r)"
    by (auto simp: split_word_def split: if_splits option.splits simp del: One_nat_def)
  then obtain G' where "rmatch ((1, AtLeast (2 - 1) is_lower) # ?q) (Some c) cs = Some (G', pv, r)"
    by (cases m) (auto simp: keep_def)
  then have "length r \<le> length cs" by (rule rmatch_shorter)
  with Cons show ?thesis by simp
qed

text \<open>
  A text \<open>b\<close> that ends in a character outside the words and is not a lowercase
  fragment of at least 2 characters followed by whitespace only: what follows \<open>b\<close>
  does not change a match that starts at the start of \<open>b\<close>.
\<close>

lemma split_word_stable:
  assumes b: "b \<noteq> []" "\<not> is_word (last b)"
    and s: "s \<noteq> []" "is_word (hd s)"
    and open_merge: "\<not> (\<exists>w ws. b = w @ ws \<and> at_boundary prev b \<and> 2 \<le> length w
          \<and> (\<forall>c \<in> set w. is_lower c) \<and> ws \<noteq> [] \<and> (\<forall>c \<in> set ws. is_space c))"
  shows "rmatch split_word prev (b @ s)
           = map_option (\<lambda>(G, pv, r). (G, pv, r @ s)) (rmatch split_word prev b)"
proof -
  let ?U = "takeWhile is_lower b" and ?s1 = "dropWhile is_lower b"
  from b have lb: "last b \<in> set b" by simp
  from b(2) have nl: "\<not> is_lower (last b)" using lower_word by blast
  with lb have tw: "takeWhile is_lower (b @ s) = ?U" "dropWhile is_lower (b @ s) = ?s1 @ s"
    by (simp_all add: takeWhile_append1 dropWhile_append1)
  from lb nl have s1: "?s1 \<noteq> []" by auto
  have bU: "b = ?U @ ?s1" by simp
  from b(1) have bd: "at_boundary prev (b @ s) = at_boundary prev b"
    by (cases b) (simp_all add: at_boundary_def)
  from s have hs: "\<not> is_space (hd s)" using word_not_space by blast
  from lb nl have nall: "\<not> Ball (set b) is_lower" by blast
  show ?thesis
  proof (cases "\<forall>c \<in> set ?s1. is_space c")
    case True
    from True have "s = [] \<or> \<not> is_space (hd s)" using hs by simp
    with True have sp: "takeWhile is_space (?s1 @ s) = ?s1" "dropWhile is_space (?s1 @ s) = s"
      by (rule run_split)+
    from True have sp0: "takeWhile is_space ?s1 = ?s1" "dropWhile is_space ?s1 = []"
      by simp_all
    have "\<not> (at_boundary prev b \<and> 2 \<le> length ?U)"
    proof
      assume h: "at_boundary prev b \<and> 2 \<le> length ?U"
      moreover have "\<forall>c \<in> set ?U. is_lower c" by (auto dest: set_takeWhileD)
      ultimately show False using open_merge True s1 bU by blast
    qed
    then show ?thesis
      by (auto simp: rmatch_split_word tw bd sp sp0 Let_def simp del: One_nat_def)
  next
    case False
    then obtain x where x: "x \<in> set ?s1" "\<not> is_space x" by blast
    then have sp: "takeWhile is_space (?s1 @ s) = takeWhile is_space ?s1"
        "dropWhile is_space (?s1 @ s) = dropWhile is_space ?s1 @ s"
      by (simp_all add: takeWhile_append1 dropWhile_append1)
    let ?s2 = "dropWhile is_space ?s1"
    from x have s2: "?s2 \<noteq> []" by auto
    have "b = (?U @ takeWhile is_space ?s1) @ ?s2" by simp
    from suffix_last [OF this s2] nl have l2: "\<not> is_lower (last ?s2)" by simp
    from s2 have in2: "last ?s2 \<in> set ?s2" by simp
    with l2 have w: "takeWhile is_lower (?s2 @ s) = takeWhile is_lower ?s2"
        "dropWhile is_lower (?s2 @ s) = dropWhile is_lower ?s2 @ s"
      by (simp_all add: takeWhile_append1 dropWhile_append1)
    let ?s3 = "dropWhile is_lower ?s2"
    from in2 l2 have s3: "?s3 \<noteq> []" by auto
    then have bd3: "at_boundary p (?s3 @ s) = at_boundary p ?s3" for p
      by (cases ?s3) (simp_all add: at_boundary_def)
    show ?thesis
      by (simp add: rmatch_split_word tw bd sp w bd3 Let_def keeps_tuple del: One_nat_def)
  qed
qed

text \<open>The scan does not depend on the character before a text that starts outside \<open>[a-z]\<close>.\<close>

lemma split_word_sub_fresh:
  assumes "x = [] \<or> \<not> is_lower (hd x)"
  shows "re_sub split_word repl prev x = re_sub split_word repl None x"
proof (cases x)
  case Nil
  then show ?thesis by (simp add: re_sub_nil split_word_nil)
next
  case (Cons c cs)
  with assms have "\<not> is_lower c" by simp
  then have "rmatch split_word p (c # cs) = None" for p by (rule split_word_not_lower)
  with Cons show ?thesis by (simp add: re_sub_copy)
qed

text \<open>After a character outside the words the scan is the scan of a text of its own.\<close>

lemma split_word_sub_after:
  assumes "\<not> is_word c"
  shows "re_sub split_word repl (Some c) x = re_sub split_word repl None x"
proof -
  from assms have "at_boundary (Some c) x = at_boundary None x"
    by (simp add: at_boundary_def)
  then have "rmatch split_word (Some c) x = rmatch split_word None x"
    by (simp add: rmatch_split_word)
  then show ?thesis
    by (subst re_sub.simps, subst (2) re_sub.simps) simp
qed

text \<open>
  Two runs of word characters with blanks between them, the first at a word boundary:
  the match at the start of the first run.
\<close>

lemma split_word_at_runs:
  assumes q: "q = None \<or> (\<exists>c. q = Some c \<and> \<not> is_word c)"
    and u: "u \<noteq> []" "\<forall>c \<in> set u. is_word c"
    and v: "v \<noteq> []" "\<forall>c \<in> set v. is_word c"
    and n: "1 \<le> n"
    and rest: "rest = [] \<or> \<not> is_word (hd rest)"
  shows "rmatch split_word q (u @ replicate n CHR '' '' @ v @ rest) =
     (if (2 \<le> length u \<and> (\<forall>c \<in> set u. is_lower c)) \<and> (2 \<le> length v \<and> (\<forall>c \<in> set v. is_lower c))
      then Some (keeps 1 u (keeps 0 (replicate n CHR '' '') (keeps 2 v (\<lambda>_. [], Some (last v), rest))))
      else None)"
proof -
  let ?sp = "replicate n CHR '' ''"
  let ?s = "u @ ?sp @ v @ rest"
  from n have sp: "?sp \<noteq> []" "hd (?sp @ v @ rest) = CHR '' ''" "\<forall>c \<in> set ?sp. is_space c"
    by (auto simp: blank_space)
  have hv: "\<not> is_space (hd (v @ rest))" using v word_not_space [of "hd v"] by (cases v) simp_all
  then have "v @ rest = [] \<or> \<not> is_space (hd (v @ rest))" ..
  with sp(3) have b: "takeWhile is_space (?sp @ v @ rest) = ?sp" "dropWhile is_space (?sp @ v @ rest) = v @ rest"
    by (rule run_split)+
  from u q have bs: "at_boundary q ?s"
    by (cases u) (auto simp: at_boundary_def)
  show ?thesis
  proof (cases "\<forall>c \<in> set u. is_lower c")
    case ul: True
    from sp have "?sp @ v @ rest = [] \<or> \<not> is_lower (hd (?sp @ v @ rest))" by (simp add: blank_space)
    with ul have a: "takeWhile is_lower ?s = u" "dropWhile is_lower ?s = ?sp @ v @ rest"
      by (rule run_split)+
    show ?thesis
    proof (cases "\<forall>c \<in> set v. is_lower c")
      case vl: True
      from rest have "rest = [] \<or> \<not> is_lower (hd rest)" using lower_word by blast
      with vl have c: "takeWhile is_lower (v @ rest) = v" "dropWhile is_lower (v @ rest) = rest"
        by (rule run_split)+
      from v have "is_word (last v)" by simp
      with rest have "at_boundary (Some (last v)) rest"
        by (cases rest) (auto simp: at_boundary_def)
      with ul vl bs sp(1) show ?thesis
        by (simp add: rmatch_split_word a b c Let_def Suc_le_eq del: replicate_eq_replicate)
    next
      case vl: False
      let ?V = "takeWhile is_lower v" and ?r = "dropWhile is_lower v"
      from vl obtain x where "x \<in> set v" "\<not> is_lower x" by blast
      then have c: "takeWhile is_lower (v @ rest) = ?V" "dropWhile is_lower (v @ rest) = ?r @ rest"
        by (simp_all add: takeWhile_append1 dropWhile_append1)
      from vl have r: "?r \<noteq> []" by simp
      then have "hd ?r \<in> set v" by (metis hd_in_set set_dropWhileD)
      with v(2) have wr: "is_word (hd ?r)" by blast
      have "\<not> at_boundary (Some (last ?V)) (?r @ rest)" if "2 \<le> length ?V"
      proof -
        from that have "?V \<noteq> []" by auto
        then have "last ?V \<in> set ?V" by (rule last_in_set)
        then have "is_lower (last ?V)" by (metis set_takeWhileD)
        then have "is_word (last ?V)" by (rule lower_word)
        with wr r show ?thesis by (cases ?r) (simp_all add: at_boundary_def)
      qed
      with vl show ?thesis
        by (auto simp: rmatch_split_word a b c Let_def)
    qed
  next
    case ul: False
    then obtain x where "x \<in> set u" "\<not> is_lower x" by blast
    then have d: "dropWhile is_lower ?s = dropWhile is_lower u @ ?sp @ v @ rest"
      by (rule dropWhile_append1)
    from ul have r: "dropWhile is_lower u \<noteq> []" by simp
    then have "hd (dropWhile is_lower u) \<in> set u" by (metis hd_in_set set_dropWhileD)
    with u(2) have "\<not> is_space (hd (dropWhile is_lower u))" using word_not_space by blast
    with r have "takeWhile is_space (dropWhile is_lower u @ ?sp @ v @ rest) = []"
      by (cases "dropWhile is_lower u") simp_all
    with ul show ?thesis
      by (auto simp: rmatch_split_word d Let_def)
  qed
qed

lemma boundary_after:
  assumes "at_boundary (prev_after None a) b" and "b \<noteq> []" and "is_word (hd b)"
  shows "a = [] \<or> \<not> is_word (last a)"
  using assms by (cases b) (auto simp: at_boundary_def prev_after_def split: if_splits)

text \<open>
  Claim C7 as stated limits the word-merge step to fragments separated by a single
  space. The pattern separates its groups by \<^verbatim>\<open>\s+\<close>: two spaces, and a newline too,
  are matched and removed like one space.
\<close>

theorem merge_scope_counterexample:
  "merge_split_words ''ab  cd'' = ''abcd'' \<and> merge_split_words ''ab\<newline>cd'' = ''abcd''"
  by code_simp

text \<open>
  Claim C7, amended. The word-merge step goes through the text once, from the left.
  A fragment \<open>u\<close> (a whole run of word characters) that is not itself preceded by a
  lowercase alphabetic fragment of at least 2 characters and whitespace (it may then
  be joined to that fragment already), and that is separated from the next fragment
  \<open>v\<close> by one or more spaces, is joined with \<open>v\<close> if and only if both fragments are
  lowercase alphabetic and of at least 2 characters;
  the whole run of spaces is removed. After a join the step goes on after \<open>v\<close>, so \<open>v\<close>
  is not joined with the fragment that follows it; without a join it goes on at \<open>v\<close>.
  \<open>pre\<close> is the text before \<open>u\<close> and \<open>rest\<close> the text after \<open>v\<close>.
\<close>

theorem word_merge_scope:
  assumes pre: "pre = [] \<or> \<not> is_word (last pre)"
    and open_merge: "\<not> (\<exists>p w ws'. pre = p @ w @ ws' \<and> (p = [] \<or> \<not> is_word (last p))
          \<and> 2 \<le> length w \<and> (\<forall>c \<in> set w. is_lower c) \<and> ws' \<noteq> [] \<and> (\<forall>c \<in> set ws'. is_space c))"
    and u: "u \<noteq> []" "\<forall>c \<in> set u. is_word c"
    and v: "v \<noteq> []" "\<forall>c \<in> set v. is_word c"
    and n: "1 \<le> n"
    and rest: "rest = [] \<or> \<not> is_word (hd rest)"
  shows "merge_split_words (pre @ u @ replicate n CHR '' '' @ v @ rest) =
     merge_split_words pre @
     (if (2 \<le> length u \<and> (\<forall>c \<in> set u. is_lower c)) \<and> (2 \<le> length v \<and> (\<forall>c \<in> set v. is_lower c))
      then u @ v @ merge_split_words rest
      else u @ replicate n CHR '' '' @ merge_split_words (v @ rest))"
proof -
  let ?t = "[Ref 1, Ref 2]"
  let ?sp = "replicate n CHR '' ''"
  let ?s = "u @ ?sp @ v @ rest"
  let ?q = "prev_after None pre"
  let ?c = "(2 \<le> length u \<and> (\<forall>c \<in> set u. is_lower c)) \<and> (2 \<le> length v \<and> (\<forall>c \<in> set v. is_lower c))"
  from u have s: "?s \<noteq> []" "is_word (hd ?s)" by (cases u; simp)+
  from pre have q: "?q = None \<or> (\<exists>c. ?q = Some c \<and> \<not> is_word c)"
    by (auto simp: prev_after_def)
  have split: "re_sub split_word ?t None (pre @ ?s)
      = re_sub split_word ?t None pre @ re_sub split_word ?t ?q ?s"
  proof (rule re_sub_append)
    fix prev s G pv r
    assume "rmatch split_word prev s = Some (G, pv, r)"
    then show "length r < length s" by (rule split_word_consumes)
  next
    fix a b
    assume ab: "pre = a @ b" "b \<noteq> []"
    with pre have lb: "\<not> is_word (last b)" by auto
    have nb: "\<not> (\<exists>w ws. b = w @ ws \<and> at_boundary (prev_after None a) b \<and> 2 \<le> length w
          \<and> (\<forall>c \<in> set w. is_lower c) \<and> ws \<noteq> [] \<and> (\<forall>c \<in> set ws. is_space c))"
    proof
      assume "\<exists>w ws. b = w @ ws \<and> at_boundary (prev_after None a) b \<and> 2 \<le> length w
          \<and> (\<forall>c \<in> set w. is_lower c) \<and> ws \<noteq> [] \<and> (\<forall>c \<in> set ws. is_space c)"
      then obtain w ws' where w: "b = w @ ws'" "at_boundary (prev_after None a) b" "2 \<le> length w"
          "\<forall>c \<in> set w. is_lower c" "ws' \<noteq> []" "\<forall>c \<in> set ws'. is_space c"
        by blast
      from w(3) have wn: "w \<noteq> []" by auto
      with w(1) have "hd b = hd w" by simp
      moreover from wn w(4) have "is_lower (hd w)" by simp
      ultimately have "is_word (hd b)" using lower_word by simp
      with w(2) ab(2) have "a = [] \<or> \<not> is_word (last a)" by (rule boundary_after)
      moreover from ab w(1) have "pre = a @ w @ ws'" by simp
      ultimately show False using open_merge w by blast
    qed
    from ab(2) lb s nb
    show "rmatch split_word (prev_after None a) (b @ ?s)
        = map_option (\<lambda>(G, pv, r). (G, pv, r @ ?s)) (rmatch split_word (prev_after None a) b)"
      by (rule split_word_stable)
  qed
  note m = split_word_at_runs [OF q u v n rest]
  have step: "re_sub split_word ?t ?q ?s
      = (if ?c then u @ v @ re_sub split_word ?t None rest
         else u @ ?sp @ re_sub split_word ?t None (v @ rest))"
  proof (cases ?c)
    case True
    have G: "keeps 1 u (keeps 0 ?sp (keeps 2 v (\<lambda>_. [], Some (last v), rest)))
        = ((\<lambda>_. [])(2 := v, 0 := ?sp, 1 := u), Some (last v), rest)"
      by (simp add: keeps_tuple)
    from True m have "rmatch split_word ?q ?s
        = Some ((\<lambda>_. [])(2 := v, 0 := ?sp, 1 := u), Some (last v), rest)"
      by (simp add: G del: One_nat_def)
    then have "re_sub split_word ?t ?q ?s
        = expand ?t ((\<lambda>_. [])(2 := v, 0 := ?sp, 1 := u)) @ re_sub split_word ?t (Some (last v)) rest"
      by (rule re_sub_match) (simp add: u(1))
    also have "re_sub split_word ?t (Some (last v)) rest = re_sub split_word ?t None rest"
      using rest lower_word by (intro split_word_sub_fresh) blast
    finally have "re_sub split_word ?t ?q ?s = u @ v @ re_sub split_word ?t None rest" by simp
    with True show ?thesis by auto
  next
    case False
    with m have none: "rmatch split_word ?q ?s = None" by (simp only: if_False)
    from u obtain c cs where ucs: "u = c # cs" by (cases u) auto
    with u(2) have c: "is_word c" and cs: "\<forall>x \<in> set cs. is_word x" by simp_all
    from n have lsp: "prev_after p ?sp = Some CHR '' ''" for p
      by (cases n) (simp_all add: prev_after_def)
    from none ucs have "re_sub split_word ?t ?q ?s = c # re_sub split_word ?t (Some c) (cs @ ?sp @ v @ rest)"
      by (simp add: re_sub_copy)
    also have "re_sub split_word ?t (Some c) (cs @ ?sp @ v @ rest)
        = cs @ re_sub split_word ?t (prev_after (Some c) cs) (?sp @ v @ rest)"
      using cs c by (rule split_word_scan_word)
    also have "re_sub split_word ?t (prev_after (Some c) cs) (?sp @ v @ rest)
        = ?sp @ re_sub split_word ?t (prev_after (prev_after (Some c) cs) ?sp) (v @ rest)"
      by (rule re_sub_copy_run) (simp add: split_word_not_lower blank_space)
    also have "re_sub split_word ?t (prev_after (prev_after (Some c) cs) ?sp) (v @ rest)
        = re_sub split_word ?t None (v @ rest)"
      unfolding lsp using blank_space(2) by (rule split_word_sub_after)
    finally have "re_sub split_word ?t ?q ?s = u @ ?sp @ re_sub split_word ?t None (v @ rest)"
      using ucs by simp
    with False show ?thesis by auto
  qed
  show ?thesis
    unfolding merge_split_words_def split step by simp
qed

theorem word_merge_scope_witness:
  "list_all is_word ''ran'' \<and> list_all is_word ''dom'' \<and> list_all is_lower ''ran''
     \<and> list_all is_lower ''dom'' \<and> (1::nat) \<le> 3 \<and> \<not> is_word (last ''A '')
     \<and> \<not> is_word (hd '' access'')
     \<and> merge_split_words ''A ran   dom access'' = ''A random access''
     \<and> list_all is_word ''Ran'' \<and> \<not> list_all is_lower ''Ran''
     \<and> merge_split_words ''Ran dom access'' = ''Ran domaccess''"
proof -
  have a: "list_all is_word ''ran''" "list_all is_word ''dom''" "list_all is_lower ''ran''"
    "list_all is_lower ''dom''" "list_all is_word ''Ran''" "\<not> list_all is_lower ''Ran''"
    "\<not> is_word (last ''A '')" "\<not> is_word (hd '' access'')"
    by (simp_all add: is_word_def is_lower_def)
  have e: "merge_split_words ''A '' = ''A ''" "merge_split_words '' access'' = '' access''"
    "merge_split_words [] = []" "merge_split_words ''dom access'' = ''domaccess''"
    by code_simp+
  have no_open: "\<not> (\<exists>p w ws'. ''A '' = p @ w @ ws' \<and> (p = [] \<or> \<not> is_word (last p))
          \<and> 2 \<le> length w \<and> (\<forall>c \<in> set w. is_lower c) \<and> ws' \<noteq> [] \<and> (\<forall>c \<in> set ws'. is_space c))"
  proof
    assume "\<exists>p w ws'. ''A '' = p @ w @ ws' \<and> (p = [] \<or> \<not> is_word (last p))
          \<and> 2 \<le> length w \<and> (\<forall>c \<in> set w. is_lower c) \<and> ws' \<noteq> [] \<and> (\<forall>c \<in> set ws'. is_space c)"
    then obtain p w ws' where w: "''A '' = p @ w @ ws'" "2 \<le> length w" "\<forall>c \<in> set w. is_lower c"
      by blast
    from w(2) have "w \<noteq> []" by auto
    then have "hd w \<in> set w" by simp
    then have "hd w \<in> set (p @ w @ ws')" by simp
    then have "hd w \<in> set ''A ''" by (simp only: w(1) [symmetric])
    moreover from \<open>hd w \<in> set w\<close> w(3) have "is_lower (hd w)" by blast
    ultimately show False by (auto simp: is_lower_def)
  qed
  from a have "merge_split_words (''A '' @ ''ran'' @ replicate 3 CHR '' '' @ ''dom'' @ '' access'') =
     merge_split_words ''A '' @
     (if (2 \<le> length ''ran'' \<and> (\<forall>c \<in> set ''ran''. is_lower c))
          \<and> (2 \<le> length ''dom'' \<and> (\<forall>c \<in> set ''dom''. is_lower c))
      then ''ran'' @ ''dom'' @ merge_split_words '' access''
      else ''ran'' @ replicate 3 CHR '' '' @ merge_split_words (''dom'' @ '' access''))"
    by (intro word_merge_scope no_open) (simp_all add: list_all_iff)
  moreover from a have "merge_split_words ([] @ ''Ran'' @ replicate 1 CHR '' '' @ ''dom'' @ '' access'') =
     merge_split_words [] @
     (if (2 \<le> length ''Ran'' \<and> (\<forall>c \<in> set ''Ran''. is_lower c))
          \<and> (2 \<le> length ''dom'' \<and> (\<forall>c \<in> set ''dom''. is_lower c))
      then ''Ran'' @ ''dom'' @ merge_split_words '' access''
      else ''Ran'' @ replicate 1 CHR '' '' @ merge_split_words (''dom'' @ '' access''))"
    by (intro word_merge_scope) (simp_all add: list_all_iff)
  ultimately show ?thesis using a e by (simp add: list_all_iff numeral_3_eq_3)
qed

subsection \<open>Lines: splitting, stripping, joining\<close>

lemma split_newline_not_empty: "split_newline s \<noteq> []"
  by (induction s) (auto split: list.splits)

lemma split_newline_lines: "l \<in> set (split_newline s) \<Longrightarrow> CHR ''\<newline>'' \<notin> set l"
proof (induction s arbitrary: l)
  case Nil
  then show ?case by simp
next
  case (Cons c cs)
  then show ?case
    by (cases "split_newline cs") (auto split: if_splits)
qed

lemma split_newline_plain: "CHR ''\<newline>'' \<notin> set x \<Longrightarrow> split_newline x = [x]"
  by (induction x) auto

lemma split_newline_append:
  "CHR ''\<newline>'' \<notin> set x \<Longrightarrow> split_newline (x @ CHR ''\<newline>'' # r) = x # split_newline r"
  by (induction x) auto

lemma strip_nil: "strip [] = []"
  by (simp add: strip_def)

lemma strip_subset: "set (strip s) \<subseteq> set s"
proof
  fix x
  assume "x \<in> set (strip s)"
  then have "x \<in> set (dropWhile is_space (rev (dropWhile is_space s)))"
    by (simp add: strip_def)
  then have "x \<in> set (rev (dropWhile is_space s))" by (rule set_dropWhileD)
  then have "x \<in> set (dropWhile is_space s)" by simp
  then show "x \<in> set s" by (rule set_dropWhileD)
qed

lemma strip_ends:
  assumes "strip s \<noteq> []"
  shows "\<not> is_space (hd (strip s))" and "\<not> is_space (last (strip s))"
proof -
  let ?d = "dropWhile is_space s"
  let ?y = "dropWhile is_space (rev ?d)"
  from assms have y: "?y \<noteq> []" by (simp add: strip_def)
  then have "\<not> is_space (hd ?y)" by (rule hd_dropWhile)
  with y show "\<not> is_space (last (strip s))" by (simp add: strip_def last_rev)
  from y have d: "?d \<noteq> []" by (metis dropWhile.simps(1) rev.simps(1))
  then have nd: "\<not> is_space (hd ?d)" by (rule hd_dropWhile)
  have "takeWhile is_space (rev ?d) @ ?y = rev ?d" by (rule takeWhile_dropWhile_id)
  then have "rev (takeWhile is_space (rev ?d) @ ?y) = rev (rev ?d)" by (rule arg_cong)
  then have "rev ?y @ rev (takeWhile is_space (rev ?d)) = ?d"
    by (simp only: rev_append rev_rev_ident)
  with y have "hd ?d = hd (rev ?y)" by (metis hd_append2 rev_is_Nil_conv)
  with nd show "\<not> is_space (hd (strip s))" by (simp add: strip_def)
qed

lemma strip_fixed:
  assumes "x = [] \<or> (\<not> is_space (hd x) \<and> \<not> is_space (last x))"
  shows "strip x = x"
proof (cases x)
  case Nil
  then show ?thesis by (simp add: strip_def)
next
  case (Cons c cs)
  with assms have h: "\<not> is_space (hd x)" and l: "\<not> is_space (last x)" by simp_all
  from h Cons have "dropWhile is_space x = x" by simp
  moreover from l have "\<not> is_space (hd (rev x))" by (simp add: hd_rev)
  then have "dropWhile is_space (rev x) = rev x"
    by (cases "rev x") simp_all
  ultimately show ?thesis by (simp add: strip_def)
qed

lemma strip_strip: "strip (strip s) = strip s"
  using strip_ends [of s] by (intro strip_fixed) blast

text \<open>A line of the normalizer: not empty, without newline, without blanks at its ends.\<close>

lemma strip_lines_line:
  assumes "l \<in> set (strip_lines s)"
  shows "l \<noteq> []" and "CHR ''\<newline>'' \<notin> set l" and "strip l = l"
proof -
  from assms obtain l0 where l0: "l0 \<in> set (split_newline s)" "strip l0 \<noteq> []" "l = strip l0"
    by (auto simp: strip_lines_def)
  then show "l \<noteq> []" by simp
  from l0(1) have "CHR ''\<newline>'' \<notin> set l0" by (rule split_newline_lines)
  with strip_subset [of l0] l0(3) show "CHR ''\<newline>'' \<notin> set l" by blast
  from l0(3) show "strip l = l" by (simp add: strip_strip)
qed

lemma split_newline_join:
  assumes "\<forall>l \<in> set ls. CHR ''\<newline>'' \<notin> set l"
  shows "set (split_newline (join ''\<newline>\<newline>'' ls)) \<subseteq> insert [] (set ls)"
  using assms
proof (induction "''\<newline>\<newline>''" ls rule: join.induct)
  case 1
  then show ?case by simp
next
  case (2 x)
  then show ?case by (simp add: split_newline_plain)
next
  case (3 x y ys)
  then show ?case by (auto simp: split_newline_append)
qed

lemma strip_lines_join:
  assumes "\<forall>l \<in> set ls. l \<noteq> [] \<and> CHR ''\<newline>'' \<notin> set l \<and> strip l = l"
  shows "strip_lines (join ''\<newline>\<newline>'' ls) = ls"
  using assms
proof (induction "''\<newline>\<newline>''" ls rule: join.induct)
  case 1
  then show ?case by (simp add: strip_lines_def strip_nil)
next
  case (2 x)
  then show ?case by (simp add: strip_lines_def split_newline_plain)
next
  case (3 x y ys)
  then have "strip_lines (join ''\<newline>\<newline>'' (y # ys)) = y # ys" by simp
  with "3.prems" show ?case
    by (simp add: strip_lines_def split_newline_append strip_nil)
qed

subsection \<open>Runs of newlines\<close>

lemma newline_run3_cons: "newline_run3 s \<Longrightarrow> newline_run3 (c # s)"
  by (cases s rule: newline_run3.cases) simp_all

lemma newline_run3_skip: "c \<noteq> CHR ''\<newline>'' \<Longrightarrow> newline_run3 (c # s) = newline_run3 s"
  by (cases s rule: newline_run3.cases) auto

lemma newline_run3_plain: "CHR ''\<newline>'' \<notin> set x \<Longrightarrow> newline_run3 (x @ r) = newline_run3 r"
  by (induction x) (auto simp: newline_run3_skip)

lemma newline_run3_second: "a \<noteq> CHR ''\<newline>'' \<Longrightarrow> newline_run3 (c # a # s) = newline_run3 (a # s)"
  by (cases s) auto

lemma newline_run3_pair:
  "r = [] \<or> hd r \<noteq> CHR ''\<newline>'' \<Longrightarrow>
     newline_run3 (CHR ''\<newline>'' # CHR ''\<newline>'' # r) = newline_run3 r"
  by (cases r) (simp_all add: newline_run3_second newline_run3_skip)

lemma newline_run3_infix: "s = a @ ''\<newline>\<newline>\<newline>'' @ b \<Longrightarrow> newline_run3 s"
  by (induction a arbitrary: s) (simp_all add: newline_run3_cons)

lemma join_hd:
  "ls \<noteq> [] \<Longrightarrow> hd ls \<noteq> [] \<Longrightarrow> join sep ls \<noteq> [] \<and> hd (join sep ls) = hd (hd ls)"
  by (induction sep ls rule: join.induct) simp_all

lemma join_no_run3:
  assumes "\<forall>l \<in> set ls. l \<noteq> [] \<and> CHR ''\<newline>'' \<notin> set l"
  shows "\<not> newline_run3 (join ''\<newline>\<newline>'' ls)"
  using assms
proof (induction "''\<newline>\<newline>''" ls rule: join.induct)
  case 1
  then show ?case by simp
next
  case (2 x)
  then show ?case using newline_run3_plain [of x "[]"] by simp
next
  case (3 x y ys)
  let ?r = "join ''\<newline>\<newline>'' (y # ys)"
  from "3.prems" have y: "y \<noteq> []" "CHR ''\<newline>'' \<notin> set y" by simp_all
  with join_hd [of "y # ys" "''\<newline>\<newline>''"] have "hd ?r = hd y" by simp
  moreover from y have "hd y \<noteq> CHR ''\<newline>''" by (cases y) auto
  ultimately have "?r = [] \<or> hd ?r \<noteq> CHR ''\<newline>''" by simp
  then have "newline_run3 (CHR ''\<newline>'' # CHR ''\<newline>'' # ?r) = newline_run3 ?r"
    by (rule newline_run3_pair)
  moreover from 3 have "\<not> newline_run3 ?r" by simp
  moreover from "3.prems" have "CHR ''\<newline>'' \<notin> set x" by simp
  ultimately show ?case
    using newline_run3_plain [of x "CHR ''\<newline>'' # CHR ''\<newline>'' # ?r"] by simp
qed

lemma newline_run_start: "3 \<le> length (takeWhile is_newline s) \<Longrightarrow> newline_run3 s"
  by (cases s rule: newline_run3.cases) (auto simp: is_newline_def split: if_splits)

lemma collapse_nothing:
  "\<not> newline_run3 s \<Longrightarrow> re_sub newline_run repl prev s = s"
proof (induction s arbitrary: prev)
  case Nil
  then show ?case by (simp add: re_sub_nil rmatch_newline_run)
next
  case (Cons c cs)
  from Cons.prems have "\<not> 3 \<le> length (takeWhile is_newline (c # cs))"
    using newline_run_start by blast
  then have "rmatch newline_run prev (c # cs) = None"
    by (simp only: rmatch_newline_run if_False)
  then have "re_sub newline_run repl prev (c # cs) = c # re_sub newline_run repl (Some c) cs"
    by (rule re_sub_copy)
  moreover from Cons.prems have "\<not> newline_run3 cs" using newline_run3_cons by blast
  ultimately show ?case by (simp add: Cons.IH)
qed

subsection \<open>The normalized text\<close>

lemma clean_lines:
  "clean_academic_text t =
     join ''\<newline>\<newline>'' (strip_lines (rejoin_hyphenated (merge_split_words (collapse_newlines t))))"
  by (simp add: clean_academic_text_def Let_def)

lemma clean_no_run3: "\<not> newline_run3 (clean_academic_text t)"
  unfolding clean_lines by (rule join_no_run3) (auto dest: strip_lines_line)

text \<open>
  Claim C9. For every input text, the output of the normalizer is a list of lines
  joined by one blank line, each line not empty, without newline and without
  whitespace at either end; so the output holds no run of three or more newlines,
  and none of its lines (the empty lines between paragraphs included) has leading or
  trailing whitespace.
\<close>

theorem normalized_text:
  "(\<exists>lines. clean_academic_text t = join ''\<newline>\<newline>'' lines
       \<and> (\<forall>l \<in> set lines. l \<noteq> [] \<and> CHR ''\<newline>'' \<notin> set l
              \<and> \<not> is_space (hd l) \<and> \<not> is_space (last l)))
     \<and> \<not> (\<exists>a b. clean_academic_text t = a @ ''\<newline>\<newline>\<newline>'' @ b)
     \<and> (\<forall>l \<in> set (split_newline (clean_academic_text t)).
           l = [] \<or> (\<not> is_space (hd l) \<and> \<not> is_space (last l)))"
proof -
  let ?ls = "strip_lines (rejoin_hyphenated (merge_split_words (collapse_newlines t)))"
  have line: "l \<noteq> [] \<and> CHR ''\<newline>'' \<notin> set l \<and> \<not> is_space (hd l) \<and> \<not> is_space (last l)"
    if "l \<in> set ?ls" for l
  proof -
    from that have l: "l \<noteq> []" "CHR ''\<newline>'' \<notin> set l" "strip l = l"
      by (rule strip_lines_line)+
    from l(1,3) have "strip l \<noteq> []" by simp
    from strip_ends [OF this] l show ?thesis by simp
  qed
  have a: "\<exists>lines. clean_academic_text t = join ''\<newline>\<newline>'' lines
       \<and> (\<forall>l \<in> set lines. l \<noteq> [] \<and> CHR ''\<newline>'' \<notin> set l
              \<and> \<not> is_space (hd l) \<and> \<not> is_space (last l))"
    using clean_lines [of t] line by blast
  have b: "\<not> (\<exists>a b. clean_academic_text t = a @ ''\<newline>\<newline>\<newline>'' @ b)"
    using clean_no_run3 [of t] newline_run3_infix by blast
  have "set (split_newline (clean_academic_text t)) \<subseteq> insert [] (set ?ls)"
    unfolding clean_lines using line by (intro split_newline_join) blast
  with line have c: "\<forall>l \<in> set (split_newline (clean_academic_text t)).
           l = [] \<or> (\<not> is_space (hd l) \<and> \<not> is_space (last l))"
    by blast
  from a b c show ?thesis by blast
qed

theorem normalized_text_witness:
  "clean_academic_text ''  x  \<newline>\<newline>\<newline>\<newline>\<newline> y z ''  = ''x\<newline>\<newline>y z''
     \<and> split_newline ''x\<newline>\<newline>y z'' = [''x'', [], ''y z'']
     \<and> \<not> (\<exists>a b. ''x\<newline>\<newline>y z'' = a @ ''\<newline>\<newline>\<newline>'' @ b)
     \<and> \<not> is_space (hd ''y z'') \<and> \<not> is_space (last ''y z'')"
proof -
  have e: "clean_academic_text ''  x  \<newline>\<newline>\<newline>\<newline>\<newline> y z ''  = ''x\<newline>\<newline>y z''"
    by code_simp
  have s: "split_newline ''x\<newline>\<newline>y z'' = [''x'', [], ''y z'']"
    by simp
  from normalized_text [of "''  x  \<newline>\<newline>\<newline>\<newline>\<newline> y z ''"]
  show ?thesis unfolding e s by simp
qed

subsection \<open>A second application\<close>

text \<open>
  Claim C5 as stated makes the normalizer idempotent. One pass of the word-merge step
  joins words in pairs, left to right, so a second pass can join what the first one
  produced: \<open>ab cd ef\<close> becomes \<open>abcd ef\<close>, and then \<open>abcdef\<close>.
\<close>

theorem not_idempotent_counterexample:
  "clean_academic_text ''ab cd ef'' = ''abcd ef''
     \<and> clean_academic_text (clean_academic_text ''ab cd ef'') = ''abcdef''"
  by code_simp

text \<open>
  Claim C5, amended. For every text \<open>t\<close>, a second application of the normalizer
  collapses no further newlines and strips or drops no further line of
  \<open>normalizer(t)\<close>; it returns \<open>normalizer(t)\<close> unchanged whenever the word-merge step
  and the hyphen step find nothing to join in \<open>normalizer(t)\<close>.
\<close>

theorem second_application:
  "collapse_newlines (clean_academic_text t) = clean_academic_text t
     \<and> join ''\<newline>\<newline>'' (strip_lines (clean_academic_text t)) = clean_academic_text t
     \<and> (merge_split_words (clean_academic_text t) = clean_academic_text t \<longrightarrow>
          rejoin_hyphenated (clean_academic_text t) = clean_academic_text t \<longrightarrow>
          clean_academic_text (clean_academic_text t) = clean_academic_text t)"
proof -
  let ?n = "clean_academic_text t"
  let ?ls = "strip_lines (rejoin_hyphenated (merge_split_words (collapse_newlines t)))"
  have a: "collapse_newlines ?n = ?n"
    unfolding collapse_newlines_def using clean_no_run3 by (rule collapse_nothing)
  have "strip_lines (join ''\<newline>\<newline>'' ?ls) = ?ls"
    by (rule strip_lines_join) (auto dest: strip_lines_line)
  then have b: "join ''\<newline>\<newline>'' (strip_lines ?n) = ?n"
    by (simp add: clean_lines)
  have c: "clean_academic_text ?n = ?n"
    if "merge_split_words ?n = ?n" "rejoin_hyphenated ?n = ?n"
    using that a b by (simp add: clean_lines [of ?n])
  from a b c show ?thesis by blast
qed

theorem second_application_witness:
  "clean_academic_text ''Deep  Learning\<newline>\<newline>\<newline>\<newline>multi-\<newline>word''
       = ''Deep  Learning\<newline>\<newline>multiword''
     \<and> merge_split_words ''Deep  Learning\<newline>\<newline>multiword'' = ''Deep  Learning\<newline>\<newline>multiword''
     \<and> rejoin_hyphenated ''Deep  Learning\<newline>\<newline>multiword'' = ''Deep  Learning\<newline>\<newline>multiword''
     \<and> clean_academic_text ''Deep  Learning\<newline>\<newline>multiword'' = ''Deep  Learning\<newline>\<newline>multiword''"
proof -
  have e: "clean_academic_text ''Deep  Learning\<newline>\<newline>\<newline>\<newline>multi-\<newline>word''
       = ''Deep  Learning\<newline>\<newline>multiword''"
    by code_simp
  have m: "merge_split_words ''Deep  Learning\<newline>\<newline>multiword'' = ''Deep  Learning\<newline>\<newline>multiword''"
    by code_simp
  have h: "rejoin_hyphenated ''Deep  Learning\<newline>\<newline>multiword'' = ''Deep  Learning\<newline>\<newline>multiword''"
    by code_simp
  from second_application [of "''Deep  Learning\<newline>\<newline>\<newline>\<newline>multi-\<newline>word''"]
  show ?thesis unfolding e using m h by simp
qed


end
